theory Spec2Isabelle
  imports Complex_Main "HOL-Library.Word" "HOL-Library.Sublist"
begin

section \<open>JavaScript strings\<close>

text \<open>
  A JavaScript string is a sequence of UTF-16 code units, and \<open>length\<close>, \<open>slice\<close>,
  \<open>lastIndexOf\<close>, \<open>trim\<close> and regular expressions without the \<open>u\<close> flag all work on code
  units. A string is therefore a list of 16-bit words. Every character the sources name
  lies in the Basic Multilingual Plane, so each is one code unit.
\<close>

type_synonym cu = "16 word"
type_synonym jsstring = "cu list"

definition TAB :: cu where "TAB = 0x09"
definition LF :: cu where "LF = 0x0A"
definition CR :: cu where "CR = 0x0D"
definition SP :: cu where "SP = 0x20"
definition DQUOTE :: cu where "DQUOTE = 0x22"
definition SQUOTE :: cu where "SQUOTE = 0x27"
definition HYPHEN :: cu where "HYPHEN = 0x2D"
definition DOT :: cu where "DOT = 0x2E"
definition EQUALS :: cu where "EQUALS = 0x3D"

text \<open>
  The class \<open>\s\<close> of a JavaScript regular expression, which is also the set that
  \<open>String.prototype.trim\<close> strips: WhiteSpace and LineTerminator of ECMA-262
  (TAB, LF, VT, FF, CR, SP, NBSP, U+1680, U+2000..U+200A, U+2028, U+2029, U+202F, U+205F,
  U+3000, U+FEFF).
\<close>

definition isWhite :: "cu \<Rightarrow> bool" where
  "isWhite c \<longleftrightarrow>
     (0x09 \<le> c \<and> c \<le> 0x0D) \<or> c = 0x20 \<or> c = 0xA0 \<or> c = 0x1680 \<or>
     (0x2000 \<le> c \<and> c \<le> 0x200A) \<or> c = 0x2028 \<or> c = 0x2029 \<or> c = 0x202F \<or>
     c = 0x205F \<or> c = 0x3000 \<or> c = 0xFEFF"

text \<open>\<open>s.trim()\<close>: leading and trailing white space removed.\<close>

definition trim :: "jsstring \<Rightarrow> jsstring" where
  "trim s = rev (dropWhile isWhite (rev (dropWhile isWhite s)))"

text \<open>
  \<open>s.slice(a, b)\<close> with integer arguments: a negative index counts from the end, both
  ends are clamped to the string, and an empty range gives the empty string.
\<close>

definition slice_js :: "'a list \<Rightarrow> int \<Rightarrow> int \<Rightarrow> 'a list" where
  "slice_js s a b =
     (let len = int (length s);
          lo = (if a < 0 then max (len + a) 0 else min a len);
          hi = (if b < 0 then max (len + b) 0 else min b len)
      in take (nat (hi - lo)) (drop (nat lo) s))"

text \<open>
  \<open>lastIdx c xs\<close> is the index of the last occurrence of \<open>c\<close> in \<open>xs\<close>, or \<open>-1\<close>.
  \<open>s.lastIndexOf(c, pos)\<close> for a search string of one code unit: the search starts at
  index \<open>min (max pos 0) (length - 1)\<close> and runs backwards, so an occurrence at index
  \<open>pos\<close> itself is found.
\<close>

fun lastIdx :: "'a \<Rightarrow> 'a list \<Rightarrow> int" where
  "lastIdx c [] = -1"
| "lastIdx c (x # xs) =
     (let r = lastIdx c xs in if 0 \<le> r then r + 1 else if x = c then 0 else -1)"

definition lastIndexOf :: "'a list \<Rightarrow> 'a \<Rightarrow> int \<Rightarrow> int" where
  "lastIndexOf s c pos =
     (let start = min (max pos 0) (int (length s) - 1)
      in lastIdx c (take (nat (start + 1)) s))"

section \<open>Chunker (\<open>chunkText\<close> of ingest.mjs)\<close>

definition CHUNK_CHARS :: int where "CHUNK_CHARS = 900"
definition CHUNK_OVERLAP :: int where "CHUNK_OVERLAP = 120"
definition BATCH :: nat where "BATCH = 24"

text \<open>
  One iteration of the \<open>while\<close> loop computes the end of the chunk that starts at the
  cursor \<open>i\<close>, and the next cursor. The test \<open>dot > i + size * 0.5\<close> compares integers
  with a possibly fractional bound; doubled, it is \<open>2 * dot > 2 * i + sz\<close> over the
  integers.
\<close>

definition chunk_end :: "jsstring \<Rightarrow> int \<Rightarrow> int \<Rightarrow> int" where
  "chunk_end s sz i =
     (let end0 = min (i + sz) (int (length s));
          dot = lastIndexOf s DOT end0
      in if 2 * dot > 2 * i + sz then dot + 1 else end0)"

definition next_cursor :: "int \<Rightarrow> int \<Rightarrow> int" where
  "next_cursor overlap e = max (e - overlap) e"

text \<open>
  The loop itself may run forever for some parameters (a size of 0 never moves the
  cursor), so it is a partial function: \<open>None\<close> is a loop that does not return.
\<close>

partial_function (option) chunk_loop ::
  "jsstring \<Rightarrow> int \<Rightarrow> int \<Rightarrow> int \<Rightarrow> jsstring list \<Rightarrow> jsstring list option" where
  "chunk_loop s sz overlap i out =
     (if i < int (length s) then
        (let e = chunk_end s sz i
         in chunk_loop s sz overlap (next_cursor overlap e) (out @ [trim (slice_js s i e)]))
      else Some out)"

declare chunk_loop.simps [code]

definition chunkText :: "jsstring \<Rightarrow> int \<Rightarrow> int \<Rightarrow> jsstring list option" where
  "chunkText s sz overlap =
     map_option (filter (\<lambda>c. c \<noteq> [])) (chunk_loop s sz overlap 0 [])"

section \<open>Text normalizer (\<open>cleanText\<close> of ingest.mjs)\<close>

text \<open>
  Each \<open>replace\<close> with a global regular expression scans the string from the left,
  replaces the leftmost match, and resumes after it; matches never overlap. Each regular
  expression of \<open>cleanText\<close> is a fixed character followed by greedy runs of a character
  class, and in each the character that must follow a run lies outside the run's class, so
  a match exists at a position exactly when the maximal run is followed by that character.
  One function per \<open>replace\<close> follows.
\<close>

definition isLetter :: "cu \<Rightarrow> bool" where
  "isLetter c \<longleftrightarrow> (0x41 \<le> c \<and> c \<le> 0x5A) \<or> (0x61 \<le> c \<and> c \<le> 0x7A)"

definition isDash :: "cu \<Rightarrow> bool" where
  \<comment> \<open>the class of an em dash (U+2014) and an en dash (U+2013)\<close>
  "isDash c \<longleftrightarrow> c = 0x2014 \<or> c = 0x2013"

definition isBlank :: "cu \<Rightarrow> bool" where
  \<comment> \<open>the class of a space and a tab\<close>
  "isBlank c \<longleftrightarrow> c = SP \<or> c = TAB"

definition isHSpace :: "cu \<Rightarrow> bool" where
  \<comment> \<open>the class \<open>[^\S\n]\<close>: white space other than a line feed\<close>
  "isHSpace c \<longleftrightarrow> isWhite c \<and> c \<noteq> LF"

text \<open>\<open>.replace(/\r/g, '\n')\<close>\<close>

definition rep_cr :: "jsstring \<Rightarrow> jsstring" where
  "rep_cr s = map (\<lambda>c. if c = CR then LF else c) s"

text \<open>\<open>.replace(/=\s*=/g, ' ')\<close>\<close>

function rep_eq :: "jsstring \<Rightarrow> jsstring" where
  "rep_eq [] = []"
| "rep_eq (c # cs) =
     (if c = EQUALS then
        (case dropWhile isWhite cs of
           [] \<Rightarrow> c # rep_eq cs
         | d # ds \<Rightarrow> if d = EQUALS then SP # rep_eq ds else c # rep_eq cs)
      else c # rep_eq cs)"
  by pat_completeness auto
termination
proof (relation "measure length")
  fix c :: cu and cs d ds
  assume "dropWhile isWhite cs = d # ds"
  then have "length ds < length (dropWhile isWhite cs)" by simp
  then show "(ds, c # cs) \<in> measure length"
    using length_dropWhile_le [of isWhite cs] by simp
qed simp_all

text \<open>\<open>.replace(/[\<emdash>\<endash>]+/g, '-')\<close>, the class being U+2014 and U+2013\<close>

function rep_dash :: "jsstring \<Rightarrow> jsstring" where
  "rep_dash [] = []"
| "rep_dash (c # cs) =
     (if isDash c then HYPHEN # rep_dash (dropWhile isDash cs) else c # rep_dash cs)"
  by pat_completeness auto
termination
  by (relation "measure length") (simp_all add: length_dropWhile_le less_Suc_eq_le)

text \<open>
  \<open>.replace(/([A-Za-z])-\s*\n\s*([A-Za-z])/g, '$1$2')\<close>: a letter, a hyphen, white space
  that holds a line feed, and a letter. The scan resumes after the second letter, which
  therefore cannot start the next match.
\<close>

function rep_wrap :: "jsstring \<Rightarrow> jsstring" where
  "rep_wrap [] = []"
| "rep_wrap (c # cs) =
     (if isLetter c then
        (case cs of
           [] \<Rightarrow> [c]
         | h # r \<Rightarrow>
             if h = HYPHEN \<and> LF \<in> set (takeWhile isWhite r) then
               (case dropWhile isWhite r of
                  [] \<Rightarrow> c # rep_wrap cs
                | l # r' \<Rightarrow> if isLetter l then c # l # rep_wrap r' else c # rep_wrap cs)
             else c # rep_wrap cs)
      else c # rep_wrap cs)"
  by pat_completeness auto
termination
proof (relation "measure length")
  fix c h l :: cu and cs r r'
  assume "cs = h # r" and "dropWhile isWhite r = l # r'"
  then have "length r' < length (dropWhile isWhite r)" and "length cs = Suc (length r)"
    by simp_all
  then show "(r', c # cs) \<in> measure length"
    using length_dropWhile_le [of isWhite r] by simp
qed simp_all

text \<open>\<open>.replace(/[ \t]+\n/g, '\n')\<close>\<close>

function rep_trail :: "jsstring \<Rightarrow> jsstring" where
  "rep_trail [] = []"
| "rep_trail (c # cs) =
     (if isBlank c then
        (case dropWhile isBlank cs of
           [] \<Rightarrow> c # rep_trail cs
         | n # r \<Rightarrow> if n = LF then LF # rep_trail r else c # rep_trail cs)
      else c # rep_trail cs)"
  by pat_completeness auto
termination
proof (relation "measure length")
  fix c n :: cu and cs r
  assume "dropWhile isBlank cs = n # r"
  then have "length r < length (dropWhile isBlank cs)" by simp
  then show "(r, c # cs) \<in> measure length"
    using length_dropWhile_le [of isBlank cs] by simp
qed simp_all

text \<open>\<open>.replace(/\n{2,}/g, '\n')\<close>\<close>

function rep_nl :: "jsstring \<Rightarrow> jsstring" where
  "rep_nl [] = []"
| "rep_nl (c # cs) =
     (if c = LF \<and> cs \<noteq> [] \<and> hd cs = LF then LF # rep_nl (dropWhile (\<lambda>x. x = LF) cs)
      else c # rep_nl cs)"
  by pat_completeness auto
termination
  by (relation "measure length") (simp_all add: length_dropWhile_le less_Suc_eq_le)

text \<open>
  \<open>.replace(/[\<ldquo>\<rdquo>]/g, '"').replace(/[\<lsquo>\<rsquo>]/g, "'")\<close>, the classes being
  U+201C, U+201D and U+2018, U+2019
\<close>

definition rep_quotes :: "jsstring \<Rightarrow> jsstring" where
  "rep_quotes s =
     map (\<lambda>c. if c = 0x2018 \<or> c = 0x2019 then SQUOTE else c)
       (map (\<lambda>c. if c = 0x201C \<or> c = 0x201D then DQUOTE else c) s)"

text \<open>\<open>.replace(/[^\S\n]+/g, ' ')\<close>\<close>

function rep_hspace :: "jsstring \<Rightarrow> jsstring" where
  "rep_hspace [] = []"
| "rep_hspace (c # cs) =
     (if isHSpace c then SP # rep_hspace (dropWhile isHSpace cs) else c # rep_hspace cs)"
  by pat_completeness auto
termination
  by (relation "measure length") (simp_all add: length_dropWhile_le less_Suc_eq_le)

text \<open>\<open>.replace(/\s{2,}/g, ' ')\<close>\<close>

function rep_ws2 :: "jsstring \<Rightarrow> jsstring" where
  "rep_ws2 [] = []"
| "rep_ws2 (c # cs) =
     (if isWhite c \<and> cs \<noteq> [] \<and> isWhite (hd cs) then SP # rep_ws2 (dropWhile isWhite cs)
      else c # rep_ws2 cs)"
  by pat_completeness auto
termination
  by (relation "measure length") (simp_all add: length_dropWhile_le less_Suc_eq_le)

text \<open>The argument is a string; the only falsy string is the empty one.\<close>

definition cleanText :: "jsstring \<Rightarrow> jsstring" where
  "cleanText t =
     (if t = [] then []
      else trim (rep_ws2 (rep_hspace (rep_quotes (rep_nl (rep_trail (rep_wrap
             (rep_dash (rep_eq (rep_cr t))))))))))"

section \<open>Query retrieval (the \<open>/ask\<close> handler of the query server)\<close>

text \<open>An ASCII literal as a JavaScript string.\<close>

definition lit :: "string \<Rightarrow> jsstring" where
  "lit s = map (\<lambda>c. of_nat (of_char c)) s"

text \<open>
  A hit after normalisation (\<open>hitsRaw\<close>): the payload's text, file name and page, and the
  similarity score. Scores are finite doubles. The handler only compares them with each
  other and with the constant, and takes the sign of a difference, which for finite doubles
  is the sign of the exact difference; so a score is a real number, and the double nearest
  to 0.45 separates the same doubles as the real 0.45 does.
\<close>

record hit =
  body :: jsstring
  filename :: jsstring
  page :: int
  score :: real

type_synonym citation = "jsstring \<times> int"

text \<open>\<open>s.includes(w)\<close>: \<open>w\<close> occurs in \<open>s\<close> as a contiguous substring.\<close>

fun includes_js :: "'a list \<Rightarrow> 'a list \<Rightarrow> bool" where
  "includes_js [] w = (w = [])"
| "includes_js (c # cs) w = (prefix w (c # cs) \<or> includes_js cs w)"

text \<open>
  \<open>s.match(/[a-z0-9]+/g) || []\<close>: the maximal runs of lower-case ASCII letters and digits,
  from left to right.
\<close>

definition isAlnum :: "cu \<Rightarrow> bool" where
  "isAlnum c \<longleftrightarrow> (0x30 \<le> c \<and> c \<le> 0x39) \<or> (0x61 \<le> c \<and> c \<le> 0x7A)"

function match_words :: "jsstring \<Rightarrow> jsstring list" where
  "match_words [] = []"
| "match_words (c # cs) =
     (if isAlnum c then (c # takeWhile isAlnum cs) # match_words (dropWhile isAlnum cs)
      else match_words cs)"
  by pat_completeness auto
termination
  by (relation "measure length") (simp_all add: length_dropWhile_le less_Suc_eq_le)

text \<open>
  \<open>Array.from(new Set(xs))\<close>: a \<open>Set\<close> keeps its elements in insertion order, and adding
  an element it already has changes nothing.
\<close>

fun set_add_all :: "'a list \<Rightarrow> 'a list \<Rightarrow> 'a list" where
  "set_add_all seen [] = seen"
| "set_add_all seen (x # xs) = set_add_all (if x \<in> set seen then seen else seen @ [x]) xs"

definition SYNS :: "jsstring list" where
  "SYNS = [lit ''defog'', lit ''defrost'', lit ''demist'']"

text \<open>
  \<open>toLowerCase\<close> is the Unicode default lower-casing of the JavaScript runtime. The handler
  is modelled for any lower-casing function, passed as the parameter \<open>lower\<close>.
\<close>

definition ascii_lower :: "jsstring \<Rightarrow> jsstring" where
  \<comment> \<open>\<open>toLowerCase\<close> on ASCII strings, to run the handler on examples\<close>
  "ascii_lower s = map (\<lambda>c. if 0x41 \<le> c \<and> c \<le> 0x5A then c + 0x20 else c) s"

definition qwords :: "(jsstring \<Rightarrow> jsstring) \<Rightarrow> jsstring \<Rightarrow> jsstring list" where
  "qwords lower q = set_add_all [] (match_words (lower q))"

definition kw :: "(jsstring \<Rightarrow> jsstring) \<Rightarrow> jsstring \<Rightarrow> jsstring list" where
  "kw lower q =
     (let ws = qwords lower q
      in if lit ''defog'' \<in> set ws \<or> lit ''defrost'' \<in> set ws \<or> lit ''demist'' \<in> set ws
         then SYNS
         else filter (\<lambda>w. 4 \<le> length w) ws)"

text \<open>
  The three filters, the sort and the cut. \<open>Array.prototype.sort\<close> is stable, and by
  \<open>(a, b) => b.score - a.score\<close> it sorts by descending score; \<open>sort_key\<close> is the
  stable sort by ascending key, here the negated score.
\<close>

definition lexical_gate :: "(jsstring \<Rightarrow> jsstring) \<Rightarrow> jsstring list \<Rightarrow> hit \<Rightarrow> bool" where
  "lexical_gate lower ws h =
     (if ws \<noteq> [] then list_ex (\<lambda>w. includes_js (lower (body h)) w) ws else True)"

definition select_hits :: "(jsstring \<Rightarrow> jsstring) \<Rightarrow> jsstring \<Rightarrow> hit \<Rightarrow> hit list \<Rightarrow> hit list" where
  "select_hits lower q top_hit hitsRaw =
     slice_js
       (sort_key (\<lambda>h. - score h)
          (filter (lexical_gate lower (kw lower q))
             (filter (\<lambda>h. 0.45 \<le> score h)
                (filter (\<lambda>h. filename h = filename top_hit) hitsRaw))))
       0 6"

text \<open>The fallback: \<open>if (!hits.length) hits = [top]\<close>.\<close>

definition context_hits :: "(jsstring \<Rightarrow> jsstring) \<Rightarrow> jsstring \<Rightarrow> hit \<Rightarrow> hit list \<Rightarrow> hit list" where
  "context_hits lower q top_hit hitsRaw =
     (let hits = select_hits lower q top_hit hitsRaw in if hits = [] then [top_hit] else hits)"

text \<open>
  The citation loop: a hit whose file name and page are not yet cited is pushed, and the
  loop breaks once three citations are held.
\<close>

fun cite_loop :: "hit list \<Rightarrow> citation list \<Rightarrow> citation list" where
  "cite_loop [] citations = citations"
| "cite_loop (h # hs) citations =
     (if \<not> list_ex (\<lambda>c. fst c = filename h \<and> snd c = page h) citations then
        (let citations' = citations @ [(filename h, page h)]
         in if 3 \<le> length citations' then citations' else cite_loop hs citations')
      else cite_loop hs citations)"

text \<open>
  The handler, given the trimmed question's search result. The embedding of the question,
  the similarity search and the completion are external; the answer text is left out of
  the response.
\<close>

datatype response =
  BadRequest
| NoContext
| Retrieval (citations: "citation list") (used: "hit list")

definition ask :: "(jsstring \<Rightarrow> jsstring) \<Rightarrow> jsstring \<Rightarrow> hit list \<Rightarrow> response" where
  "ask lower question hitsRaw =
     (let q = trim question
      in if q = [] then BadRequest
         else case hitsRaw of
           [] \<Rightarrow> NoContext
         | top_hit # _ \<Rightarrow>
             (let hits = context_hits lower q top_hit hitsRaw
              in Retrieval (cite_loop hits []) hits))"

text \<open>
  The citation list in the words of the specification: the first occurrences of the
  distinct (file name, page) pairs of the hits, in order, cut after three.
\<close>

fun first_occurrences :: "'a list \<Rightarrow> 'a list" where
  "first_occurrences [] = []"
| "first_occurrences (x # xs) = x # filter (\<lambda>y. y \<noteq> x) (first_occurrences xs)"

definition spec_citations :: "hit list \<Rightarrow> citation list" where
  "spec_citations hits = take 3 (first_occurrences (map (\<lambda>h. (filename h, page h)) hits))"

section \<open>Embedding batcher (\<open>getEmbedder\<close> of ingest.mjs)\<close>

text \<open>
  What the feature-extraction pipeline returns: an array of tensors, or one tensor. A
  tensor has its flat \<open>data\<close> and its \<open>dims\<close>, which may be undefined. The numbers of a
  vector are never computed with, so their type is a parameter.
\<close>

record 'a tensor =
  data :: "'a list"
  dims :: "nat list option"

datatype 'a pipe_out = OutArray "'a tensor list" | OutTensor "'a tensor"

text \<open>
  The body of \<open>embedFn\<close> after the call of the pipeline. An entry of the result is a
  vector, or \<open>undefined\<close> (\<open>None\<close>): for a tensor whose \<open>dims\<close> is the empty array,
  \<open>new Array(undefined)\<close> is the array of one \<open>undefined\<close> element and the loop does not run.
  In every other case \<open>new Array(batch)\<close> has \<open>batch\<close> slots and the loop fills each. A
  typed array's \<open>slice\<close> clamps as a string's does.
\<close>

definition split_output :: "'a pipe_out \<Rightarrow> 'a list option list" where
  "split_output out =
     (case out of
        OutArray ts \<Rightarrow> map (\<lambda>t. Some (data t)) ts
      | OutTensor t \<Rightarrow>
          (case dims t of
             None \<Rightarrow> [Some (data t)]
           | Some ds \<Rightarrow>
               if length ds = 1 then [Some (data t)]
               else if ds = [] then [None]
               else
                 (let batch = hd ds; dim = last ds
                  in map (\<lambda>i. Some (slice_js (data t) (int (i * dim)) (int (i * dim + dim))))
                       [0..<batch])))"

text \<open>
  The three output shapes of the specification, for the vectors \<open>vs\<close> of a batch: one
  tensor per text; one tensor with the dims \<open>[N, n]\<close> whose data is the vectors one after
  the other; and, for a single text, one tensor with no dims or one dimension.
\<close>

inductive shaped :: "'a list list \<Rightarrow> 'a pipe_out \<Rightarrow> bool" where
  per_text: "map data ts = vs \<Longrightarrow> shaped vs (OutArray ts)"
| batched: "(\<forall>v \<in> set vs. length v = n) \<Longrightarrow>
     shaped vs (OutTensor \<lparr>data = concat vs, dims = Some [length vs, n]\<rparr>)"
| single: "ds = None \<or> (\<exists>d. ds = Some [d]) \<Longrightarrow> shaped [v] (OutTensor \<lparr>data = v, dims = ds\<rparr>)"

section \<open>Ingestion (ingest.mjs)\<close>

text \<open>
  The external tools are functions of an environment: \<open>pdfinfo\<close> and \<open>pdftotext\<close> return
  the result of \<open>spawnSync\<close> (the exit status, \<open>None\<close> for \<open>null\<close>, when the process did not
  exit by itself), \<open>pdftoppm\<close> the code of its \<open>close\<close> event, \<open>recognize\<close> the text that
  Tesseract found for the page's image (\<open>None\<close> when its promise rejects; an undefined text
  is the empty string), \<open>pipe\<close> the output of the embedding pipeline and \<open>uuid\<close> the
  identifiers that \<open>crypto.randomUUID\<close> draws, by the number of identifiers drawn before.
  A call that the source does not check (creating the temporary directory, the upsert, the
  pipeline) is taken to return.
\<close>

record proc =
  status :: "int option"
  stdout :: jsstring
  stderr :: jsstring

record 'a env =
  pdfinfo :: "jsstring \<Rightarrow> proc"
  pdftotext :: "jsstring \<Rightarrow> nat \<Rightarrow> proc"
  pdftoppm :: "jsstring \<Rightarrow> nat \<Rightarrow> int option"
  recognize :: "jsstring \<Rightarrow> nat \<Rightarrow> jsstring option"
  pipe :: "jsstring list \<Rightarrow> 'a pipe_out"
  uuid :: "nat \<Rightarrow> jsstring"

datatype error =
  PdfinfoFailed jsstring
| NoPageCount
| PdftoppmFailed "int option"
| RecognizeFailed
| EmbedCount nat nat

text \<open>The tools that were run, in order, each with the file and the page.\<close>

datatype event =
  Pdfinfo jsstring
| Pdftotext jsstring nat
| Pdftoppm jsstring nat
| Recognize jsstring nat

record 'a point =
  pid :: jsstring
  vec :: "'a list option"
  doc_id :: jsstring
  pfilename :: jsstring
  ppage :: nat
  ptext :: jsstring

text \<open>The state: the points of the collection, the identifiers drawn, the tools run.\<close>

record 'a world =
  store :: "'a point list"
  drawn :: nat
  log :: "event list"

record page_text =
  pt_page :: nat
  pt_text :: jsstring

record chunk =
  cpage :: nat
  ctext :: jsstring

text \<open>
  \<open>r.stdout.match(/Pages:\s+(\d+)/)\<close> and \<open>parseInt(m[1], 10)\<close>: the leftmost place where
  \<open>Pages:\<close> is followed by white space and then digits; the digits are read as a decimal
  number (exactly: the page count of a file is far below \<open>2^53\<close>).
\<close>

definition isDigit :: "cu \<Rightarrow> bool" where
  "isDigit c \<longleftrightarrow> 0x30 \<le> c \<and> c \<le> 0x39"

definition parse_dec :: "jsstring \<Rightarrow> nat" where
  "parse_dec ds = foldl (\<lambda>n d. 10 * n + (unat d - 48)) 0 ds"

definition pages_here :: "jsstring \<Rightarrow> nat option" where
  "pages_here s =
     (if prefix (lit ''Pages:'') s then
        (let r = drop 6 s; ds = takeWhile isDigit (dropWhile isWhite r)
         in if r \<noteq> [] \<and> isWhite (hd r) \<and> ds \<noteq> [] then Some (parse_dec ds) else None)
      else None)"

fun match_pages :: "jsstring \<Rightarrow> nat option" where
  "match_pages [] = None"
| "match_pages (c # cs) =
     (case pages_here (c # cs) of Some n \<Rightarrow> Some n | None \<Rightarrow> match_pages cs)"

definition getPageCount :: "'a env \<Rightarrow> jsstring \<Rightarrow> error + nat" where
  "getPageCount E pdfPath =
     (let r = pdfinfo E pdfPath
      in if status r \<noteq> Some 0 then Inl (PdfinfoFailed (stderr r))
         else case match_pages (stdout r) of
                None \<Rightarrow> Inl NoPageCount
              | Some n \<Rightarrow> Inr n)"

definition extractPageTextWithPdftotext :: "'a env \<Rightarrow> jsstring \<Rightarrow> nat \<Rightarrow> jsstring" where
  "extractPageTextWithPdftotext E pdfPath p =
     (let r = pdftotext E pdfPath p
      in if status r \<noteq> Some 0 then []
         else trim (filter (\<lambda>c. c \<noteq> 0) (stdout r)))"

definition rasterizeAndOCR ::
  "'a env \<Rightarrow> jsstring \<Rightarrow> nat \<Rightarrow> event list \<times> (error + jsstring)" where
  "rasterizeAndOCR E pdfPath p =
     (let code = pdftoppm E pdfPath p
      in if code \<noteq> Some 0 then ([Pdftoppm pdfPath p], Inl (PdftoppmFailed code))
         else case recognize E pdfPath p of
                None \<Rightarrow> ([Pdftoppm pdfPath p, Recognize pdfPath p], Inl RecognizeFailed)
              | Some t \<Rightarrow> ([Pdftoppm pdfPath p, Recognize pdfPath p], Inr (trim t)))"

text \<open>
  The loop over the pages \<open>1, ..., pages\<close>, as a recursion over the pages still to do,
  with the \<open>pageTexts\<close> pushed so far. It returns the tools it ran.
\<close>

fun page_loop ::
  "'a env \<Rightarrow> jsstring \<Rightarrow> nat list \<Rightarrow> page_text list \<Rightarrow> event list \<times> (error + page_text list)" where
  "page_loop E pdfPath [] pageTexts = ([], Inr pageTexts)"
| "page_loop E pdfPath (p # ps) pageTexts =
     (let text = extractPageTextWithPdftotext E pdfPath p
      in if text = [] \<or> length text < 30 then
           (case rasterizeAndOCR E pdfPath p of
              (ev, Inl e) \<Rightarrow> (Pdftotext pdfPath p # ev, Inl e)
            | (ev, Inr t) \<Rightarrow>
                (case page_loop E pdfPath ps (pageTexts @ [\<lparr>pt_page = p, pt_text = cleanText t\<rparr>]) of
                   (evs, r) \<Rightarrow> (Pdftotext pdfPath p # ev @ evs, r)))
         else
           (case page_loop E pdfPath ps (pageTexts @ [\<lparr>pt_page = p, pt_text = cleanText text\<rparr>]) of
              (evs, r) \<Rightarrow> (Pdftotext pdfPath p # evs, r)))"

text \<open>The tools that one iteration of the loop runs for the page \<open>p\<close>.\<close>

definition page_events :: "'a env \<Rightarrow> jsstring \<Rightarrow> nat \<Rightarrow> event list" where
  "page_events E pdfPath p =
     (let text = extractPageTextWithPdftotext E pdfPath p
      in if text = [] \<or> length text < 30 then Pdftotext pdfPath p # fst (rasterizeAndOCR E pdfPath p)
         else [Pdftotext pdfPath p])"

text \<open>The chunks of all pages; \<open>None\<close> if the chunker does not return.\<close>

fun make_chunks :: "page_text list \<Rightarrow> chunk list option" where
  "make_chunks [] = Some []"
| "make_chunks (p # ps) =
     (case chunkText (pt_text p) CHUNK_CHARS CHUNK_OVERLAP of
        None \<Rightarrow> None
      | Some parts \<Rightarrow>
          (case make_chunks ps of
             None \<Rightarrow> None
           | Some chunks \<Rightarrow> Some (map (\<lambda>part. \<lparr>cpage = pt_page p, ctext = part\<rparr>) parts @ chunks)))"

text \<open>
  The loop over the batches of 24 chunks: embed the batch, throw when the number of
  vectors is not the number of texts, and upsert one point per chunk otherwise.
\<close>

definition embedFn :: "'a env \<Rightarrow> jsstring list \<Rightarrow> 'a list option list" where
  "embedFn E texts = split_output (pipe E texts)"

function embed_loop ::
  "'a env \<Rightarrow> jsstring \<Rightarrow> jsstring \<Rightarrow> chunk list \<Rightarrow> nat \<Rightarrow> 'a world \<Rightarrow> 'a world \<times> (error + unit)" where
  "embed_loop E docId fname chunks i w =
     (if i < length chunks then
        (let batch = slice_js chunks (int i) (int (i + BATCH));
             vecs = embedFn E (map ctext batch)
         in if length vecs \<noteq> length batch
            then (w, Inl (EmbedCount (length vecs) (length batch)))
            else
              (let points =
                     map (\<lambda>(b, j). \<lparr>pid = uuid E (drawn w + j), vec = vecs ! j, doc_id = docId,
                                     pfilename = fname, ppage = cpage b, ptext = ctext b\<rparr>)
                       (zip batch [0..<length batch])
               in embed_loop E docId fname chunks (i + BATCH)
                    (w\<lparr>store := store w @ points, drawn := drawn w + length batch\<rparr>)))
      else (w, Inr ()))"
  by pat_completeness auto
termination
  by (relation "measure (\<lambda>(E, docId, fname, chunks, i, w). length chunks - i)")
     (simp_all add: BATCH_def)

declare embed_loop.simps [simp del]

text \<open>
  \<open>path.basename\<close> of a path: trailing slashes aside, what follows the last slash.
  \<open>filename.replace(/\.[^.]+$/, '')\<close> removes the last period and what follows it, when
  something follows it.
\<close>

definition basename :: "jsstring \<Rightarrow> jsstring" where
  "basename pth =
     (let q = rev (dropWhile (\<lambda>c. c = 0x2F) (rev pth))
      in drop (nat (lastIdx 0x2F q + 1)) q)"

definition strip_ext :: "jsstring \<Rightarrow> jsstring" where
  "strip_ext fname =
     (let d = lastIdx DOT fname
      in if 0 \<le> d \<and> d + 1 < int (length fname) then take (nat d) fname else fname)"

definition ingestFile :: "'a env \<Rightarrow> jsstring \<Rightarrow> 'a world \<Rightarrow> ('a world \<times> (error + unit)) option" where
  "ingestFile E pdfPath w =
     (let fname = basename pdfPath;
          docId = strip_ext fname;
          w0 = w\<lparr>log := log w @ [Pdfinfo pdfPath]\<rparr>
      in case getPageCount E pdfPath of
           Inl e \<Rightarrow> Some (w0, Inl e)
         | Inr pages \<Rightarrow>
             (case page_loop E pdfPath [1..<Suc pages] [] of
                (ev, Inl e) \<Rightarrow> Some (w0\<lparr>log := log w0 @ ev\<rparr>, Inl e)
              | (ev, Inr pageTexts) \<Rightarrow>
                  (case make_chunks pageTexts of
                     None \<Rightarrow> None
                   | Some chunks \<Rightarrow>
                       if chunks = [] then Some (w0\<lparr>log := log w0 @ ev\<rparr>, Inr ())
                       else Some (embed_loop E docId fname chunks 0 (w0\<lparr>log := log w0 @ ev\<rparr>)))))"

text \<open>
  The run over the PDF files of the documents directory: \<open>await ingestFile\<close> for each in
  turn, so the first exception ends the run. \<open>None\<close> is a run that does not return.
\<close>

fun run :: "'a env \<Rightarrow> jsstring list \<Rightarrow> 'a world \<Rightarrow> ('a world \<times> (error + unit)) option" where
  "run E [] w = Some (w, Inr ())"
| "run E (pdfPath # rest) w =
     (case ingestFile E pdfPath w of
        None \<Rightarrow> None
      | Some (w', Inl e) \<Rightarrow> Some (w', Inl e)
      | Some (w', Inr u) \<Rightarrow> run E rest w')"

section \<open>An example run\<close>

text \<open>
  An environment to run the ingestion on: a file of two pages, the first with 34 characters
  of extractable text, the second a scan whose extraction gives one character; every tool
  exits with 0; the pipeline returns one tensor per text, holding the text's length.
\<close>

definition sample_env :: "nat env" where
  "sample_env =
     \<lparr>pdfinfo = (\<lambda>f. \<lparr>status = Some 0, stdout = lit ''Pages:          2'', stderr = []\<rparr>),
      pdftotext = (\<lambda>f p. \<lparr>status = Some 0,
                           stdout = (if p = 1 then lit ''The heater control is on the dash.'' else lit ''7''),
                           stderr = []\<rparr>),
      pdftoppm = (\<lambda>f p. Some 0),
      recognize = (\<lambda>f p. Some (lit ''Fuse box.'')),
      pipe = (\<lambda>texts. OutArray (map (\<lambda>t. \<lparr>data = [length t], dims = Some [1]\<rparr>) texts)),
      uuid = (\<lambda>n. [of_nat n])\<rparr>"

definition sample_path :: jsstring where
  "sample_path = lit ''/docs/a.pdf''"

definition empty_world :: "nat world" where
  "empty_world = \<lparr>store = [], drawn = 0, log = []\<rparr>"

text \<open>The state after the example file is ingested from the empty state.\<close>

definition sample_result :: "nat world" where
  "sample_result =
     \<lparr>store =
        [\<lparr>pid = [0], vec = Some [34], doc_id = lit ''a'', pfilename = lit ''a.pdf'', ppage = 1,
          ptext = lit ''The heater control is on the dash.''\<rparr>,
         \<lparr>pid = [1], vec = Some [9], doc_id = lit ''a'', pfilename = lit ''a.pdf'', ppage = 2,
          ptext = lit ''Fuse box.''\<rparr>],
      drawn = 2,
      log = [Pdfinfo sample_path, Pdftotext sample_path 1, Pdftotext sample_path 2,
             Pdftoppm sample_path 2, Recognize sample_path 2]\<rparr>"




definition badpipe_env :: "nat env" where
  "badpipe_env =
     sample_env\<lparr>pipe := (\<lambda>texts. OutTensor \<lparr>data = [1, 2, 3], dims = Some [3, 1]\<rparr>)\<rparr>"

section \<open>Facts about strings\<close>

lemma lastIdx_less: "lastIdx c xs < int (length xs)"
  by (induction xs) (auto simp: Let_def)

lemma lastIdx_ge: "-1 \<le> lastIdx c xs"
  by (induction xs) (auto simp: Let_def)

lemma lastIndexOf_le: "lastIndexOf s c pos < int (length s)"
proof -
  have "lastIndexOf s c pos < int (length (take (nat (min (max pos 0) (int (length s) - 1) + 1)) s))"
    unfolding lastIndexOf_def Let_def by (rule lastIdx_less)
  then show ?thesis by (simp split: if_splits)
qed

section \<open>Termination of the chunker\<close>

lemma chunk_end_gt:
  assumes "0 < sz" "i < int (length s)"
  shows "i < chunk_end s sz i"
  using assms unfolding chunk_end_def Let_def by auto

lemma chunk_end_le: "i < int (length s) \<Longrightarrow> 0 < sz \<Longrightarrow> chunk_end s sz i \<le> int (length s)"
  using lastIndexOf_le [of s DOT "min (i + sz) (int (length s))"]
  unfolding chunk_end_def Let_def by auto

lemma next_cursor_ge: "e \<le> next_cursor overlap e"
  unfolding next_cursor_def by simp

lemma chunk_loop_returns:
  assumes "0 < sz"
  shows "\<exists>r. chunk_loop s sz overlap i out = Some r"
proof (induction "nat (int (length s) - i)" arbitrary: i out rule: less_induct)
  case less
  show ?case
  proof (cases "i < int (length s)")
    case False
    then show ?thesis by (subst chunk_loop.simps) simp
  next
    case True
    let ?e = "chunk_end s sz i"
    have "i < next_cursor overlap ?e"
      using chunk_end_gt [OF assms True] next_cursor_ge [of ?e overlap] by linarith
    then have "nat (int (length s) - next_cursor overlap ?e) < nat (int (length s) - i)"
      using True by linarith
    from less [OF this] obtain r where
      "chunk_loop s sz overlap (next_cursor overlap ?e) (out @ [trim (slice_js s i ?e)]) = Some r"
      by blast
    then show ?thesis using True by (subst chunk_loop.simps) (simp add: Let_def)
  qed
qed

lemma chunk_loop_done: "\<not> i < int (length s) \<Longrightarrow> chunk_loop s sz ov i out = Some out"
  by (subst chunk_loop.simps) simp

lemma chunk_loop_step:
  "i < int (length s) \<Longrightarrow>
   chunk_loop s sz ov i out =
   chunk_loop s sz ov (next_cursor ov (chunk_end s sz i)) (out @ [trim (slice_js s i (chunk_end s sz i))])"
  by (subst chunk_loop.simps) (simp add: Let_def)

lemma next_cursor_eq: "0 \<le> ov \<Longrightarrow> next_cursor ov e = e"
  by (simp add: next_cursor_def)

lemma lastIdx_notin: "c \<notin> set xs \<Longrightarrow> lastIdx c xs = -1"
  by (induction xs) (auto simp: Let_def)

lemma lastIdx_nth: "0 \<le> lastIdx c xs \<Longrightarrow> xs ! nat (lastIdx c xs) = c"
proof (induction xs)
  case Nil then show ?case by simp
next
  case (Cons x xs)
  show ?case
  proof (cases "0 \<le> lastIdx c xs")
    case True
    then have "nat (lastIdx c xs + 1) = Suc (nat (lastIdx c xs))" by simp
    with True Cons show ?thesis by (simp add: Let_def)
  next
    case False
    with Cons.prems show ?thesis by (simp add: Let_def split: if_splits)
  qed
qed

lemma lastIdx_after: "c \<notin> set (drop (nat (lastIdx c xs + 1)) xs)"
proof (induction xs)
  case Nil then show ?case by simp
next
  case (Cons x xs)
  show ?case
  proof (cases "0 \<le> lastIdx c xs")
    case True
    then have "nat (lastIdx c xs + 1 + 1) = Suc (nat (lastIdx c xs + 1))" by simp
    with True Cons show ?thesis by (simp add: Let_def)
  next
    case False
    then have "lastIdx c xs = -1" using lastIdx_ge [of c xs] by simp
    with Cons show ?thesis by (auto simp add: Let_def)
  qed
qed

lemma lastIdx_neg: "\<not> 0 \<le> lastIdx c xs \<Longrightarrow> lastIdx c xs = -1"
  using lastIdx_ge [of c xs] by linarith

lemma lastIdx_append:
  "lastIdx c (xs @ ys) = (if 0 \<le> lastIdx c ys then int (length xs) + lastIdx c ys else lastIdx c xs)"
  by (induction xs) (auto simp: Let_def dest: lastIdx_neg)

lemma lastIndexOf_whole:
  "int (length s) \<le> pos \<Longrightarrow> lastIndexOf s c pos = lastIdx c s"
  by (cases "s = []") (auto simp: lastIndexOf_def Let_def min_def max_def)

lemma slice_js_take_drop:
  "0 \<le> a \<Longrightarrow> a \<le> b \<Longrightarrow> b \<le> int (length s) \<Longrightarrow> slice_js s a b = take (nat (b - a)) (drop (nat a) s)"
  by (simp add: slice_js_def Let_def min_def)

lemma trim_eq_Nil: "trim s = [] \<longleftrightarrow> (\<forall>c \<in> set s. isWhite c)"
proof
  assume "trim s = []"
  then have all: "\<forall>x \<in> set (dropWhile isWhite s). isWhite x"
    by (simp add: trim_def dropWhile_eq_Nil_conv)
  have "dropWhile isWhite s = []"
  proof (rule ccontr)
    assume ne: "dropWhile isWhite s \<noteq> []"
    then have "\<not> isWhite (hd (dropWhile isWhite s))" by (rule hd_dropWhile)
    with all ne show False by (meson hd_in_set)
  qed
  then show "\<forall>c \<in> set s. isWhite c" by (simp add: dropWhile_eq_Nil_conv)
next
  assume "\<forall>c \<in> set s. isWhite c"
  then have d: "dropWhile isWhite s = []" by (simp add: dropWhile_eq_Nil_conv)
  show "trim s = []" unfolding trim_def d by simp
qed

lemma trim_append_white:
  assumes "\<forall>c \<in> set ws. isWhite c"
  shows "trim (xs @ ws) = trim xs"
proof (cases "\<forall>c \<in> set xs. isWhite c")
  case True
  with assms have "trim (xs @ ws) = []" "trim xs = []" by (auto simp: trim_eq_Nil)
  then show ?thesis by simp
next
  case False
  then have "dropWhile isWhite (xs @ ws) = dropWhile isWhite xs @ ws"
    by (auto simp: dropWhile_append)
  moreover have "dropWhile isWhite (rev ws @ ys) = dropWhile isWhite ys" for ys
    using assms by (simp add: dropWhile_append)
  ultimately show ?thesis by (simp add: trim_def)
qed

lemma trim_id:
  assumes "s \<noteq> []" "\<not> isWhite (hd s)" "\<not> isWhite (last s)"
  shows "trim s = s"
proof -
  have "dropWhile isWhite s = s" using assms by (cases s) auto
  moreover have "dropWhile isWhite (rev s) = rev s"
    using assms by (cases "rev s") (auto simp: last_rev [symmetric] hd_rev)
  ultimately show ?thesis by (simp add: trim_def)
qed

section \<open>Pages shorter than one chunk\<close>

lemma chunk_end_short:
  assumes "0 < sz" "int (length s) \<le> i + sz" "i < int (length s)"
  shows "chunk_end s sz i = (if 2 * lastIdx DOT s > 2 * i + sz then lastIdx DOT s + 1 else int (length s))"
  using assms by (simp add: chunk_end_def Let_def lastIndexOf_whole min_def)

lemma chunkText_short:
  assumes sz: "0 < sz" and ov: "0 \<le> ov" and len: "int (length s) < sz"
  shows "chunkText s sz ov = Some (filter (\<lambda>c. c \<noteq> [])
     (if s = [] then []
      else if 2 * lastIdx DOT s \<le> sz \<or> lastIdx DOT s + 1 = int (length s) then [trim s]
      else [trim (take (nat (lastIdx DOT s + 1)) s), trim (drop (nat (lastIdx DOT s + 1)) s)]))"
proof (cases "s = []")
  case True
  then show ?thesis by (simp add: chunkText_def chunk_loop_done)
next
  case ne: False
  let ?d = "lastIdx DOT s"
  have dl: "?d < int (length s)" by (rule lastIdx_less)
  have pos: "0 < int (length s)" using ne by simp
  show ?thesis
  proof (cases "2 * ?d \<le> sz")
    case True
    then have e: "chunk_end s sz 0 = int (length s)"
      using chunk_end_short [of sz s 0] sz len pos by simp
    have "chunk_loop s sz ov 0 [] = Some [trim s]"
      using pos by (simp add: chunk_loop_step e next_cursor_eq ov chunk_loop_done slice_js_take_drop)
    then show ?thesis using ne True by (simp add: chunkText_def)
  next
    case False
    then have e: "chunk_end s sz 0 = ?d + 1"
      using chunk_end_short [of sz s 0] sz len pos by simp
    have d0: "0 \<le> ?d" using False sz by linarith
    have s1: "chunk_loop s sz ov 0 [] = chunk_loop s sz ov (?d + 1) [trim (take (nat (?d + 1)) s)]"
      using pos dl d0 by (simp add: chunk_loop_step e next_cursor_eq ov slice_js_take_drop)
    show ?thesis
    proof (cases "?d + 1 = int (length s)")
      case True
      then have "chunk_loop s sz ov 0 [] = Some [trim s]"
        using s1 by (simp add: chunk_loop_done)
      then show ?thesis using ne True by (simp add: chunkText_def)
    next
      case nl: False
      then have lt: "?d + 1 < int (length s)" using dl by linarith
      have e2: "chunk_end s sz (?d + 1) = int (length s)"
        using chunk_end_short [of sz s "?d + 1"] sz len lt d0 by simp
      have "slice_js s (?d + 1) (int (length s)) = drop (nat (?d + 1)) s"
        using d0 lt by (simp add: slice_js_take_drop)
      then have "chunk_loop s sz ov (?d + 1) [trim (take (nat (?d + 1)) s)] =
          Some [trim (take (nat (?d + 1)) s), trim (drop (nat (?d + 1)) s)]"
        using lt by (simp add: chunk_loop_step e2 next_cursor_eq ov chunk_loop_done)
      then show ?thesis using ne False nl s1 by (simp add: chunkText_def)
    qed
  qed
qed

lemma not_white_DOT: "\<not> isWhite DOT"
  by (simp add: isWhite_def DOT_def)

lemma lastIndexOf_notin: "c \<notin> set s \<Longrightarrow> lastIndexOf s c pos = -1"
  unfolding lastIndexOf_def Let_def by (rule lastIdx_notin) (auto dest: in_set_takeD)

lemma chunk_end_nodot:
  "DOT \<notin> set s \<Longrightarrow> 0 \<le> i \<Longrightarrow> 0 \<le> sz \<Longrightarrow> chunk_end s sz i = min (i + sz) (int (length s))"
  by (simp add: chunk_end_def Let_def lastIndexOf_notin)

section \<open>C10: the chunker terminates\<close>

text \<open>
  Claim C10. With the fixed parameters (size 900, overlap 120) \<open>chunkText\<close> returns on
  every input string: the loop returns from every cursor and accumulator, because in each
  iteration with the cursor \<open>i\<close> inside the string the proposed end
  \<open>min (i + 900) length\<close> exceeds \<open>i\<close>, a snapped end \<open>dot + 1\<close> with \<open>dot > i + 450\<close>
  exceeds \<open>i\<close>, the end the iteration chooses exceeds \<open>i\<close>, and
  \<open>max (end - overlap) end\<close> is never less than the end, so the cursor strictly increases.
\<close>

theorem chunkText_terminates:
  "(\<exists>chunks. chunkText s CHUNK_CHARS CHUNK_OVERLAP = Some chunks) \<and>
   (\<forall>i out. \<exists>r. chunk_loop s CHUNK_CHARS CHUNK_OVERLAP i out = Some r) \<and>
   (\<forall>i. i < int (length s) \<longrightarrow>
      i < min (i + CHUNK_CHARS) (int (length s)) \<and>
      (\<forall>dot. dot > i + 450 \<longrightarrow> i < dot + 1) \<and>
      i < chunk_end s CHUNK_CHARS i \<and>
      chunk_end s CHUNK_CHARS i \<le> next_cursor CHUNK_OVERLAP (chunk_end s CHUNK_CHARS i) \<and>
      i < next_cursor CHUNK_OVERLAP (chunk_end s CHUNK_CHARS i))"
proof -
  have sz: "0 < CHUNK_CHARS" by (simp add: CHUNK_CHARS_def)
  have ret: "\<exists>r. chunk_loop s CHUNK_CHARS CHUNK_OVERLAP i out = Some r" for i out
    by (rule chunk_loop_returns [OF sz])
  then obtain r where "chunk_loop s CHUNK_CHARS CHUNK_OVERLAP 0 [] = Some r" by blast
  then have a: "\<exists>chunks. chunkText s CHUNK_CHARS CHUNK_OVERLAP = Some chunks"
    by (simp add: chunkText_def)
  have b: "i < min (i + CHUNK_CHARS) (int (length s)) \<and>
      (\<forall>dot. dot > i + 450 \<longrightarrow> i < dot + 1) \<and>
      i < chunk_end s CHUNK_CHARS i \<and>
      chunk_end s CHUNK_CHARS i \<le> next_cursor CHUNK_OVERLAP (chunk_end s CHUNK_CHARS i) \<and>
      i < next_cursor CHUNK_OVERLAP (chunk_end s CHUNK_CHARS i)"
    if "i < int (length s)" for i
    using that sz chunk_end_gt [OF sz that] next_cursor_ge [of "chunk_end s CHUNK_CHARS i" CHUNK_OVERLAP]
    by auto
  from a ret b show ?thesis by blast
qed

text \<open>The termination theorem at the three-character page \<open>a.b\<close>.\<close>

theorem chunkText_terminates_witness:
  "(\<exists>chunks. chunkText [0x61, DOT, 0x62] CHUNK_CHARS CHUNK_OVERLAP = Some chunks) \<and>
   (0::int) < int (length [0x61, DOT, 0x62 :: cu]) \<and>
   0 < chunk_end [0x61, DOT, 0x62] CHUNK_CHARS 0 \<and>
   0 < next_cursor CHUNK_OVERLAP (chunk_end [0x61, DOT, 0x62] CHUNK_CHARS 0)"
  using chunkText_terminates [of "[0x61, DOT, 0x62]"] by simp

section \<open>C7: pages shorter than one chunk\<close>

text \<open>
  Claim C7, as amended. For a page text shorter than 900 characters, \<open>chunkText\<close> yields
  exactly one chunk equal to the trimmed text if and only if the text has a character that
  is not white space and its last period is at an index of at most 450 or is followed by
  white space only. (An empty or blank page yields no chunk; a last period past index 450
  with text after it splits the page in two.)
\<close>

theorem chunkText_short_page:
  assumes "int (length s) < CHUNK_CHARS"
  shows "chunkText s CHUNK_CHARS CHUNK_OVERLAP = Some [trim s] \<longleftrightarrow>
         trim s \<noteq> [] \<and>
         (lastIdx DOT s \<le> 450 \<or> (\<forall>c \<in> set (drop (nat (lastIdx DOT s + 1)) s). isWhite c))"
proof -
  let ?d = "lastIdx DOT s"
  let ?t1 = "trim (take (nat (?d + 1)) s)" and ?t2 = "trim (drop (nat (?d + 1)) s)"
  have short: "chunkText s CHUNK_CHARS CHUNK_OVERLAP = Some (filter (\<lambda>c. c \<noteq> [])
     (if s = [] then []
      else if 2 * ?d \<le> CHUNK_CHARS \<or> ?d + 1 = int (length s) then [trim s]
      else [?t1, ?t2]))"
    using assms by (intro chunkText_short) (simp_all add: CHUNK_CHARS_def CHUNK_OVERLAP_def)
  show ?thesis
  proof (cases "s = []")
    case True
    then show ?thesis using short by (simp add: trim_def)
  next
    case ne: False
    show ?thesis
    proof (cases "2 * ?d \<le> CHUNK_CHARS \<or> ?d + 1 = int (length s)")
      case True
      then have "?d \<le> 450 \<or> drop (nat (?d + 1)) s = []"
        by (auto simp: CHUNK_CHARS_def)
      then show ?thesis using short ne True by auto
    next
      case False
      then have d: "450 < ?d" "0 \<le> ?d" by (simp_all add: CHUNK_CHARS_def)
      have dl: "?d < int (length s)" by (rule lastIdx_less)
      have "s ! nat ?d = DOT" using d by (intro lastIdx_nth)
      moreover have "nat ?d < length (take (nat (?d + 1)) s)" using d dl by simp
      moreover have "take (nat (?d + 1)) s ! nat ?d = s ! nat ?d" using d by simp
      ultimately have "DOT \<in> set (take (nat (?d + 1)) s)"
        using nth_mem [of "nat ?d" "take (nat (?d + 1)) s"] by simp
      then have t1: "?t1 \<noteq> []" using not_white_DOT by (auto simp: trim_eq_Nil)
      have res: "chunkText s CHUNK_CHARS CHUNK_OVERLAP = Some (if ?t2 = [] then [?t1] else [?t1, ?t2])"
        using short ne False t1 by simp
      show ?thesis
      proof (cases "?t2 = []")
        case True
        then have w: "\<forall>c \<in> set (drop (nat (?d + 1)) s). isWhite c" by (simp add: trim_eq_Nil)
        have "trim (take (nat (?d + 1)) s @ drop (nat (?d + 1)) s) = ?t1"
          using w by (rule trim_append_white)
        then have "trim s = ?t1" by simp
        then show ?thesis using res True t1 w by simp
      next
        case f2: False
        then have "\<not> (\<forall>c \<in> set (drop (nat (?d + 1)) s). isWhite c)" by (simp add: trim_eq_Nil)
        then show ?thesis using res f2 d by simp
      qed
    qed
  qed
qed

text \<open>The amended claim at the four-character page \<open>" a. "\<close>.\<close>

theorem chunkText_short_page_witness:
  "int (length [SP, 0x61, DOT, SP]) < CHUNK_CHARS \<and>
   chunkText [SP, 0x61, DOT, SP] CHUNK_CHARS CHUNK_OVERLAP = Some [[0x61, DOT]]"
proof -
  have len: "int (length [SP, 0x61, DOT, SP]) < CHUNK_CHARS" by (simp add: CHUNK_CHARS_def)
  have t: "trim [SP, 0x61, DOT, SP] = [0x61, DOT]"
    by (simp add: trim_def isWhite_def SP_def DOT_def)
  have "lastIdx DOT [SP, 0x61, DOT, SP] \<le> 450" by (simp add: DOT_def SP_def)
  with chunkText_short_page [OF len] t len show ?thesis by simp
qed

text \<open>
  Claim C7 as stated fails: a page of 601 characters, 500 letters \<open>a\<close>, a period at
  index 500 and 100 letters \<open>b\<close>, is cut after the period into two chunks.
\<close>

theorem chunkText_short_page_counterexample:
  "int (length (replicate 500 (0x61::cu) @ DOT # replicate 100 0x62)) < CHUNK_CHARS \<and>
   chunkText (replicate 500 0x61 @ DOT # replicate 100 0x62) CHUNK_CHARS CHUNK_OVERLAP =
     Some [replicate 500 0x61 @ [DOT], replicate 100 0x62] \<and>
   chunkText (replicate 500 0x61 @ DOT # replicate 100 0x62) CHUNK_CHARS CHUNK_OVERLAP \<noteq>
     Some [trim (replicate 500 0x61 @ DOT # replicate 100 0x62)]"
proof -
  let ?s = "replicate 500 (0x61::cu) @ DOT # replicate 100 0x62"
  have len: "int (length ?s) < 900" by simp
  have "lastIdx DOT (replicate 100 (0x62::cu)) = -1"
    by (rule lastIdx_notin) (simp add: DOT_def)
  then have d: "lastIdx DOT ?s = 500" by (simp add: lastIdx_append Let_def)
  have t1: "trim (replicate 500 (0x61::cu) @ [DOT]) = replicate 500 0x61 @ [DOT]"
    by (rule trim_id) (simp_all add: isWhite_def DOT_def hd_append)
  have t2: "trim (replicate 100 (0x62::cu)) = replicate 100 0x62"
    by (rule trim_id) (simp_all add: isWhite_def)
  have "chunkText ?s 900 120 = Some [replicate 500 0x61 @ [DOT], replicate 100 0x62]"
    using chunkText_short [of 900 120 ?s] len d t1 t2 by simp
  then show ?thesis by (simp add: CHUNK_CHARS_def CHUNK_OVERLAP_def)
qed

section \<open>C1: consecutive chunks do not overlap\<close>

text \<open>
  Claim C1 (consecutive chunks share at least 120 characters) does not hold of the code:
  \<open>Math.max(end - overlap, end)\<close> is \<open>end\<close>, so the next chunk starts where the last one
  ended. On a page of 900 letters \<open>a\<close> followed by 200 letters \<open>b\<close>, whose first boundary at
  index 900 is not the end of the page, the chunks are the 900 \<open>a\<close> and the 200 \<open>b\<close>: they
  have no character in common, so no suffix of the first is a prefix of the second.
\<close>

theorem chunkText_no_overlap:
  "chunkText (replicate 900 0x61 @ replicate 200 0x62) CHUNK_CHARS CHUNK_OVERLAP =
     Some [replicate 900 0x61, replicate 200 0x62] \<and>
   set (replicate 900 (0x61::cu)) \<inter> set (replicate 200 (0x62::cu)) = {}"
proof -
  let ?s = "replicate 900 (0x61::cu) @ replicate 200 0x62"
  have nd: "DOT \<notin> set ?s" by (simp add: DOT_def)
  have e1: "chunk_end ?s 900 0 = 900" using chunk_end_nodot [OF nd, of 0 900] by simp
  have e2: "chunk_end ?s 900 900 = 1100" using chunk_end_nodot [OF nd, of 900 900] by simp
  have t1: "trim (replicate 900 (0x61::cu)) = replicate 900 0x61"
    by (rule trim_id) (simp_all add: isWhite_def)
  have t2: "trim (replicate 200 (0x62::cu)) = replicate 200 0x62"
    by (rule trim_id) (simp_all add: isWhite_def)
  have c1: "slice_js ?s 0 900 = replicate 900 0x61" by (simp add: slice_js_def Let_def)
  have c2: "slice_js ?s 900 1100 = replicate 200 0x62" by (simp add: slice_js_def Let_def)
  have "chunk_loop ?s 900 120 0 [] = chunk_loop ?s 900 120 900 [replicate 900 0x61]"
    by (subst chunk_loop_step) (simp_all add: e1 c1 t1 next_cursor_def)
  also have "\<dots> = chunk_loop ?s 900 120 1100 [replicate 900 0x61, replicate 200 0x62]"
    by (subst chunk_loop_step) (simp_all add: e2 c2 t2 next_cursor_def)
  also have "\<dots> = Some [replicate 900 0x61, replicate 200 0x62]"
    by (rule chunk_loop_done) simp
  finally show ?thesis by (simp add: chunkText_def CHUNK_CHARS_def CHUNK_OVERLAP_def)
qed

section \<open>C2: the normalizer is not idempotent\<close>

text \<open>
  Claim C2 (\<open>cleanText (cleanText x) = cleanText x\<close> for every \<open>x\<close>) does not hold of the
  code. In \<open>a-\nb-\nc\<close> the letter \<open>b\<close> ends the first hyphenated line wrap and starts the
  second; the scan resumes after \<open>b\<close>, so one pass joins only the first wrap and gives
  \<open>ab-\nc\<close>, and a second pass joins the other and gives \<open>abc\<close>.
\<close>

theorem cleanText_not_idempotent:
  "cleanText [0x61, HYPHEN, LF, 0x62, HYPHEN, LF, 0x63] = [0x61, 0x62, HYPHEN, LF, 0x63] \<and>
   cleanText (cleanText [0x61, HYPHEN, LF, 0x62, HYPHEN, LF, 0x63]) = [0x61, 0x62, 0x63]"
proof -
  have one: "cleanText [0x61, HYPHEN, LF, 0x62, HYPHEN, LF, 0x63] = [0x61, 0x62, HYPHEN, LF, 0x63]"
    by (simp add: cleanText_def rep_cr_def rep_quotes_def trim_def isWhite_def isLetter_def
        isDash_def isBlank_def isHSpace_def HYPHEN_def LF_def CR_def SP_def TAB_def EQUALS_def)
  have two: "cleanText [0x61, 0x62, HYPHEN, LF, 0x63] = [0x61, 0x62, 0x63]"
    by (simp add: cleanText_def rep_cr_def rep_quotes_def trim_def isWhite_def isLetter_def
        isDash_def isBlank_def isHSpace_def HYPHEN_def LF_def CR_def SP_def TAB_def EQUALS_def)
  show ?thesis unfolding one two by simp
qed

section \<open>Facts about the query handler\<close>






section \<open>C5: the filter funnel\<close>






section \<open>C6: the fallback\<close>

text \<open>
  Claim C6. For a non-empty candidate list with first element \<open>top_hit\<close>, the final context
  list is not empty: it is the singleton \<open>[top_hit]\<close> when the funnel retains nothing and
  the funnel's list otherwise, and for a non-blank question the handler answers with a
  retrieval response that uses this list.
\<close>

theorem fallback_nonempty:
  assumes "hitsRaw = top_hit # rest"
  shows "context_hits lower q top_hit hitsRaw \<noteq> [] \<and>
         (select_hits lower q top_hit hitsRaw = [] \<longrightarrow>
            context_hits lower q top_hit hitsRaw = [top_hit]) \<and>
         (select_hits lower q top_hit hitsRaw \<noteq> [] \<longrightarrow>
            context_hits lower q top_hit hitsRaw = select_hits lower q top_hit hitsRaw) \<and>
         (trim question \<noteq> [] \<longrightarrow>
            (\<exists>cs. ask lower question hitsRaw =
                Retrieval cs (context_hits lower (trim question) top_hit hitsRaw)))"
  using assms by (simp add: context_hits_def ask_def Let_def)

text \<open>The fallback on one candidate that the score floor removes.\<close>

theorem fallback_nonempty_witness:
  "select_hits ascii_lower (lit ''wiper blades'')
     \<lparr>body = lit ''Fuses'', filename = lit ''m.pdf'', page = 9, score = 0.3\<rparr>
     [\<lparr>body = lit ''Fuses'', filename = lit ''m.pdf'', page = 9, score = 0.3\<rparr>] = [] \<and>
   context_hits ascii_lower (lit ''wiper blades'')
     \<lparr>body = lit ''Fuses'', filename = lit ''m.pdf'', page = 9, score = 0.3\<rparr>
     [\<lparr>body = lit ''Fuses'', filename = lit ''m.pdf'', page = 9, score = 0.3\<rparr>] =
     [\<lparr>body = lit ''Fuses'', filename = lit ''m.pdf'', page = 9, score = 0.3\<rparr>]"
proof -
  let ?h = "\<lparr>body = lit ''Fuses'', filename = lit ''m.pdf'', page = 9, score = 0.3\<rparr>"
  have sel: "select_hits ascii_lower (lit ''wiper blades'') ?h [?h] = []"
    by (simp add: select_hits_def slice_js_def)
  with fallback_nonempty [of "[?h]" ?h "[]" ascii_lower "lit ''wiper blades''"]
  show ?thesis by simp
qed

section \<open>Facts about the citation loop\<close>

lemma set_first_occurrences: "set (first_occurrences xs) = set xs"
  by (induction xs) auto

lemma distinct_first_occurrences: "distinct (first_occurrences xs)"
  by (induction xs) simp_all

lemma cite_loop_inv:
  assumes "distinct acc" "length acc < 3"
  shows "cite_loop hs acc =
         take 3 (acc @ filter (\<lambda>k. k \<notin> set acc) (first_occurrences (map (\<lambda>h. (filename h, page h)) hs)))"
  using assms
proof (induction hs arbitrary: acc)
  case Nil
  then show ?case by simp
next
  case (Cons h hs)
  let ?k = "(filename h, page h)"
  let ?fo = "first_occurrences (map (\<lambda>h. (filename h, page h)) hs)"
  have ex: "list_ex (\<lambda>c. fst c = filename h \<and> snd c = page h) acc \<longleftrightarrow> ?k \<in> set acc"
    unfolding list_ex_iff by (metis fst_conv snd_conv prod.collapse)
  show ?case
  proof (cases "?k \<in> set acc")
    case True
    have "filter (\<lambda>x. x \<noteq> ?k \<and> x \<notin> set acc) ?fo = filter (\<lambda>k. k \<notin> set acc) ?fo"
      by (rule filter_cong) (use True in auto)
    with True Cons.IH [OF Cons.prems] show ?thesis
      by (simp add: ex)
  next
    case False
    show ?thesis
    proof (cases "3 \<le> length (acc @ [?k])")
      case True
      with Cons.prems have "length acc = 2" by simp
      then show ?thesis using False True by (simp add: ex Let_def)
    next
      case short: False
      have d: "distinct (acc @ [?k])" using False Cons.prems by simp
      have l: "length (acc @ [?k]) < 3" using short by simp
      have f: "filter (\<lambda>k. k \<notin> set (acc @ [?k])) ?fo =
               filter (\<lambda>x. x \<noteq> ?k \<and> x \<notin> set acc) ?fo"
        by (rule filter_cong) auto
      have "cite_loop (h # hs) acc = cite_loop hs (acc @ [?k])"
        using False short by (simp add: ex Let_def)
      also have "\<dots> = take 3 ((acc @ [?k]) @ filter (\<lambda>x. x \<noteq> ?k \<and> x \<notin> set acc) ?fo)"
        using Cons.IH [OF d l] f by simp
      also have "\<dots> = take 3 (acc @ filter (\<lambda>k. k \<notin> set acc)
            (first_occurrences (map (\<lambda>h. (filename h, page h)) (h # hs))))"
        using False by simp
      finally show ?thesis .
    qed
  qed
qed

section \<open>C9: citations\<close>

text \<open>
  Claim C9. For every sequence of hits the citation loop returns the first occurrences of
  the distinct (file name, page) pairs, in the order of their first occurrence, cut after
  three: no pair occurs twice and there are at most 3 citations.
\<close>

theorem citations_dedup:
  "cite_loop hits [] = spec_citations hits \<and>
   distinct (cite_loop hits []) \<and>
   length (cite_loop hits []) \<le> 3 \<and>
   cite_loop hits [] = take 3 (first_occurrences (map (\<lambda>h. (filename h, page h)) hits))"
proof -
  have eq: "cite_loop hits [] = spec_citations hits"
    using cite_loop_inv [of "[]" hits] by (simp add: spec_citations_def)
  have d: "distinct (spec_citations hits)"
    by (simp add: spec_citations_def distinct_first_occurrences)
  have l: "length (spec_citations hits) \<le> 3" by (simp add: spec_citations_def)
  show ?thesis unfolding eq using d l by (simp add: spec_citations_def)
qed

section \<open>Facts about the embedding batcher\<close>

lemma slice_js_nat: "a \<le> b \<Longrightarrow> slice_js s (int a) (int b) = take (b - a) (drop a s)"
proof (cases "a < length s")
  case True
  assume ab: "a \<le> b"
  have "nat (min (int b) (int (length s)) - int a) = min b (length s) - a"
    using True ab by (cases "b \<le> length s") (simp_all add: min_def nat_diff_distrib')
  moreover have "take (min b (length s) - a) (drop a s) = take (b - a) (drop a s)"
    by (simp add: min_def)
  moreover have "slice_js s (int a) (int b) = take (nat (min (int b) (int (length s)) - int a)) (drop a s)"
    using True by (simp add: slice_js_def Let_def)
  ultimately show ?thesis by simp
next
  case False
  then show ?thesis by (simp add: slice_js_def Let_def min_def)
qed

lemma concat_rows:
  "(\<forall>v \<in> set vs. length v = n) \<Longrightarrow>
   map (\<lambda>i. take n (drop (i * n) (concat vs))) [0..<length vs] = vs"
proof (induction vs)
  case Nil
  then show ?case by simp
next
  case (Cons v vs)
  then have lv: "length v = n" and rest: "\<forall>v \<in> set vs. length v = n" by simp_all
  have "map (\<lambda>i. take n (drop (i * n) (concat (v # vs)))) [0..<length (v # vs)] =
        take n (v @ concat vs) # map (\<lambda>i. take n (drop (Suc i * n) (v @ concat vs))) [0..<length vs]"
    by (simp add: upt_rec [of 0 "Suc (length vs)"] map_Suc_upt [symmetric] del: upt_Suc)
  also have "take n (v @ concat vs) = v" using lv by simp
  also have "map (\<lambda>i. take n (drop (Suc i * n) (v @ concat vs))) [0..<length vs] =
             map (\<lambda>i. take n (drop (i * n) (concat vs))) [0..<length vs]"
    using lv by simp
  also have "\<dots> = vs" using Cons.IH [OF rest] .
  finally show ?case .
qed

lemma split_output_shaped:
  assumes "shaped vs out"
  shows "split_output out = map Some vs"
  using assms
proof cases
  case (per_text ts)
  then show ?thesis by (auto simp: split_output_def)
next
  case (batched n)
  have sl: "slice_js (concat vs) (int (i * n)) (int (i * n + n)) = take n (drop (i * n) (concat vs))" for i
    using slice_js_nat [of "i * n" "i * n + n" "concat vs"] by simp
  have "map (\<lambda>i. Some (slice_js (concat vs) (int (i * n)) (int (i * n + n)))) [0..<length vs] =
        map Some (map (\<lambda>i. take n (drop (i * n) (concat vs))) [0..<length vs])"
    by (simp only: sl map_map o_def)
  also have "\<dots> = map Some vs" using batched(2) by (simp only: concat_rows)
  finally show ?thesis using batched(1) by (simp add: split_output_def)
next
  case (single ds v)
  then show ?thesis by (auto simp: split_output_def)
qed

lemma embed_loop_stop:
  "\<not> i < length chunks \<Longrightarrow> embed_loop E docId fname chunks i w = (w, Inr ())"
  by (subst embed_loop.simps) simp

lemma embed_loop_throw:
  assumes "i < length chunks"
    and "length (embedFn E (map ctext (slice_js chunks (int i) (int (i + BATCH))))) \<noteq>
         length (slice_js chunks (int i) (int (i + BATCH)))"
  shows "embed_loop E docId fname chunks i w =
         (w, Inl (EmbedCount (length (embedFn E (map ctext (slice_js chunks (int i) (int (i + BATCH))))))
                    (length (slice_js chunks (int i) (int (i + BATCH))))))"
  using assms by (subst embed_loop.simps) (simp add: Let_def)

lemma embed_loop_next:
  assumes "i < length chunks"
    and "length (embedFn E (map ctext (slice_js chunks (int i) (int (i + BATCH))))) =
         length (slice_js chunks (int i) (int (i + BATCH)))"
  shows "\<exists>points. length points = length (slice_js chunks (int i) (int (i + BATCH))) \<and>
           embed_loop E docId fname chunks i w =
           embed_loop E docId fname chunks (i + BATCH)
             (w\<lparr>store := store w @ points,
                drawn := drawn w + length (slice_js chunks (int i) (int (i + BATCH)))\<rparr>)"
proof -
  let ?batch = "slice_js chunks (int i) (int (i + BATCH))"
  let ?vecs = "embedFn E (map ctext ?batch)"
  let ?points = "map (\<lambda>(b, j). \<lparr>pid = uuid E (drawn w + j), vec = ?vecs ! j, doc_id = docId,
                                     pfilename = fname, ppage = cpage b, ptext = ctext b\<rparr>)
                       (zip ?batch [0..<length ?batch])"
  have "length ?points = length ?batch" by simp
  moreover have "embed_loop E docId fname chunks i w =
           embed_loop E docId fname chunks (i + BATCH)
             (w\<lparr>store := store w @ ?points, drawn := drawn w + length ?batch\<rparr>)"
    using assms by (subst embed_loop.simps) (simp add: Let_def)
  ultimately show ?thesis by blast
qed

lemma length_batch: "i + BATCH \<le> length chunks \<Longrightarrow> length (slice_js chunks (int i) (int (i + BATCH))) = BATCH"
  using slice_js_nat [of i "i + BATCH" chunks] by simp

lemma embed_loop_mismatch:
  assumes "i + BATCH * k < length chunks"
    and "length (embedFn E (map ctext (slice_js chunks (int (i + BATCH * k)) (int (i + BATCH * k + BATCH))))) \<noteq>
         length (slice_js chunks (int (i + BATCH * k)) (int (i + BATCH * k + BATCH)))"
  shows "\<exists>w' m n j. embed_loop E docId fname chunks i w = (w', Inl (EmbedCount m n)) \<and> m \<noteq> n \<and>
           j \<le> k \<and> length (store w') = length (store w) + BATCH * j"
  using assms
proof (induction k arbitrary: i w)
  case 0
  then show ?case using embed_loop_throw [of i chunks E docId fname w] by auto
next
  case (Suc k)
  let ?batch = "slice_js chunks (int i) (int (i + BATCH))"
  have lt: "i < length chunks" using Suc.prems(1) by simp
  show ?case
  proof (cases "length (embedFn E (map ctext ?batch)) = length ?batch")
    case False
    then show ?thesis using embed_loop_throw [OF lt False, of docId fname w] by auto
  next
    case True
    have full: "length ?batch = BATCH"
      using Suc.prems(1) by (intro length_batch) simp
    from embed_loop_next [OF lt True, of docId fname w] obtain points where
      lp: "length points = length ?batch" and
      step: "embed_loop E docId fname chunks i w =
           embed_loop E docId fname chunks (i + BATCH)
             (w\<lparr>store := store w @ points, drawn := drawn w + length ?batch\<rparr>)"
      by blast
    have a: "i + BATCH + BATCH * k < length chunks" using Suc.prems(1) by simp
    have e: "i + BATCH + BATCH * k = i + BATCH * Suc k" by simp
    from Suc.IH [OF a, of "w\<lparr>store := store w @ points, drawn := drawn w + length ?batch\<rparr>"] Suc.prems(2)
    obtain w' m n j where
      r: "embed_loop E docId fname chunks (i + BATCH)
            (w\<lparr>store := store w @ points, drawn := drawn w + length ?batch\<rparr>) = (w', Inl (EmbedCount m n))"
      and mn: "m \<noteq> n" and j: "j \<le> k"
      and st: "length (store w') = length (store (w\<lparr>store := store w @ points, drawn := drawn w + length ?batch\<rparr>)) + BATCH * j"
      unfolding e by blast
    have "length (store w') = length (store w) + BATCH * Suc j"
      using st lp full by simp
    with step r mn j show ?thesis by (metis Suc_le_mono)
  qed
qed

section \<open>Facts about the ingestion\<close>

lemma chunkText_returns: "\<exists>parts. chunkText s CHUNK_CHARS CHUNK_OVERLAP = Some parts"
proof -
  have "0 < CHUNK_CHARS" by (simp add: CHUNK_CHARS_def)
  from chunk_loop_returns [OF this, of s CHUNK_OVERLAP 0 "[]"] show ?thesis
    by (auto simp: chunkText_def)
qed

lemma make_chunks_returns: "\<exists>chunks. make_chunks pts = Some chunks"
proof (induction pts)
  case Nil
  then show ?case by simp
next
  case (Cons p ps)
  obtain parts where "chunkText (pt_text p) CHUNK_CHARS CHUNK_OVERLAP = Some parts"
    using chunkText_returns by blast
  with Cons show ?case by auto
qed

lemma ingestFile_returns: "\<exists>w' r. ingestFile E pdfPath w = Some (w', r)"
proof (cases "getPageCount E pdfPath")
  case (Inl e)
  then show ?thesis by (simp add: ingestFile_def Let_def)
next
  case (Inr n)
  obtain ev r where pl: "page_loop E pdfPath [1..<Suc n] [] = (ev, r)" by (cases "page_loop E pdfPath [1..<Suc n] []")
  show ?thesis
  proof (cases r)
    case (Inl e)
    with Inr pl show ?thesis by (simp add: ingestFile_def Let_def)
  next
    case r: (Inr pts)
    obtain chunks where mc: "make_chunks pts = Some chunks" using make_chunks_returns by blast
    show ?thesis
    proof (cases "chunks = []")
      case True
      with Inr pl r mc show ?thesis by (simp add: ingestFile_def Let_def)
    next
      case False
      obtain w' x where "embed_loop E (strip_ext (basename pdfPath)) (basename pdfPath) chunks 0
          (w\<lparr>log := log w @ [Pdfinfo pdfPath] @ ev\<rparr>) = (w', x)"
        by (cases "embed_loop E (strip_ext (basename pdfPath)) (basename pdfPath) chunks 0
          (w\<lparr>log := log w @ [Pdfinfo pdfPath] @ ev\<rparr>)")
      with Inr pl r mc False show ?thesis by (simp add: ingestFile_def Let_def)
    qed
  qed
qed

lemma run_fails:
  assumes "pdfPath \<in> set pdfs"
    and "\<And>w. \<exists>w' e. ingestFile E pdfPath w = Some (w', Inl e)"
  shows "\<exists>w' e. run E pdfs w = Some (w', Inl e)"
  using assms(1)
proof (induction pdfs arbitrary: w)
  case Nil
  then show ?case by simp
next
  case (Cons x xs)
  obtain w1 r where x: "ingestFile E x w = Some (w1, r)" using ingestFile_returns by blast
  show ?case
  proof (cases r)
    case (Inl e)
    with x show ?thesis by simp
  next
    case (Inr u)
    with x assms(2) [of w] have "x \<noteq> pdfPath" by auto
    with Cons.prems have "pdfPath \<in> set xs" by simp
    from Cons.IH [OF this, of w1] x Inr show ?thesis by simp
  qed
qed




lemma ingestFile_embed_mismatch:
  assumes "getPageCount E pdfPath = Inr n"
    and "page_loop E pdfPath [1..<Suc n] [] = (ev, Inr pts)"
    and "make_chunks pts = Some chunks"
    and "BATCH * k < length chunks"
    and "length (embedFn E (map ctext (slice_js chunks (int (BATCH * k)) (int (BATCH * k + BATCH))))) \<noteq>
         length (slice_js chunks (int (BATCH * k)) (int (BATCH * k + BATCH)))"
  shows "\<exists>w' m n. ingestFile E pdfPath w = Some (w', Inl (EmbedCount m n)) \<and> m \<noteq> n"
proof -
  have ne: "chunks \<noteq> []" using assms(4) by auto
  from embed_loop_mismatch [of 0 k chunks E "strip_ext (basename pdfPath)" "basename pdfPath"
      "w\<lparr>log := log w @ [Pdfinfo pdfPath] @ ev\<rparr>"] assms(4,5)
  obtain w' m n where
    "embed_loop E (strip_ext (basename pdfPath)) (basename pdfPath) chunks 0
       (w\<lparr>log := log w @ [Pdfinfo pdfPath] @ ev\<rparr>) = (w', Inl (EmbedCount m n))" "m \<noteq> n"
    by auto
  with assms(1,2,3) ne show ?thesis by (simp add: ingestFile_def Let_def)
qed

lemma page_loop_events:
  "page_loop E pdfPath ps pts = (tr, r) \<Longrightarrow>
   \<exists>k \<le> length ps. tr = concat (map (page_events E pdfPath) (take k ps)) \<and>
      (\<forall>pts'. r = Inr pts' \<longrightarrow> k = length ps)"
proof (induction ps arbitrary: pts tr r)
  case Nil
  then show ?case by simp
next
  case (Cons q qs)
  let ?text = "extractPageTextWithPdftotext E pdfPath q"
  show ?case
  proof (cases "?text = [] \<or> length ?text < 30")
    case short: True
    obtain ev x where ro: "rasterizeAndOCR E pdfPath q = (ev, x)" by (cases "rasterizeAndOCR E pdfPath q")
    have pe: "page_events E pdfPath q = Pdftotext pdfPath q # ev"
      using short ro by (simp add: page_events_def Let_def)
    show ?thesis
    proof (cases x)
      case (Inl e)
      with Cons.prems short ro have "tr = Pdftotext pdfPath q # ev" "r = Inl e"
        by (simp_all add: Let_def)
      then have "tr = concat (map (page_events E pdfPath) (take 1 (q # qs)))"
        and "\<forall>pts'. r = Inr pts' \<longrightarrow> 1 = length (q # qs)"
        using pe by simp_all
      then show ?thesis by (metis One_nat_def Suc_leI length_Cons zero_less_Suc)
    next
      case (Inr t)
      obtain evs r' where rest: "page_loop E pdfPath qs (pts @ [\<lparr>pt_page = q, pt_text = cleanText t\<rparr>]) = (evs, r')"
        by (cases "page_loop E pdfPath qs (pts @ [\<lparr>pt_page = q, pt_text = cleanText t\<rparr>])")
      with Cons.prems short ro Inr have tr: "tr = Pdftotext pdfPath q # ev @ evs" and r: "r = r'"
        by (simp_all add: Let_def)
      from Cons.IH [OF rest] obtain k where k: "k \<le> length qs"
        "evs = concat (map (page_events E pdfPath) (take k qs))"
        "\<forall>pts'. r' = Inr pts' \<longrightarrow> k = length qs" by blast
      have "Suc k \<le> length (q # qs)" using k(1) by simp
      moreover have "tr = concat (map (page_events E pdfPath) (take (Suc k) (q # qs)))"
        using tr k(2) pe by simp
      moreover have "\<forall>pts'. r = Inr pts' \<longrightarrow> Suc k = length (q # qs)" using k(3) r by simp
      ultimately show ?thesis by blast
    qed
  next
    case long: False
    have pe: "page_events E pdfPath q = [Pdftotext pdfPath q]"
      using long by (simp add: page_events_def Let_def)
    obtain evs r' where rest: "page_loop E pdfPath qs (pts @ [\<lparr>pt_page = q, pt_text = cleanText ?text\<rparr>]) = (evs, r')"
      by (cases "page_loop E pdfPath qs (pts @ [\<lparr>pt_page = q, pt_text = cleanText ?text\<rparr>])")
    with Cons.prems long have tr: "tr = Pdftotext pdfPath q # evs" and r: "r = r'"
      by (simp_all add: Let_def)
    from Cons.IH [OF rest] obtain k where k: "k \<le> length qs"
      "evs = concat (map (page_events E pdfPath) (take k qs))"
      "\<forall>pts'. r' = Inr pts' \<longrightarrow> k = length qs" by blast
    have "Suc k \<le> length (q # qs)" using k(1) by simp
    moreover have "tr = concat (map (page_events E pdfPath) (take (Suc k) (q # qs)))"
      using tr k(2) pe by simp
    moreover have "\<forall>pts'. r = Inr pts' \<longrightarrow> Suc k = length (q # qs)" using k(3) r by simp
    ultimately show ?thesis by blast
  qed
qed

lemma raster_events:
  "fst (rasterizeAndOCR E pdfPath q) = [Pdftoppm pdfPath q] \<or>
   fst (rasterizeAndOCR E pdfPath q) = [Pdftoppm pdfPath q, Recognize pdfPath q]"
  by (simp add: rasterizeAndOCR_def Let_def split: option.splits)

lemma page_events_cases:
  "page_events E pdfPath q =
     (if length (extractPageTextWithPdftotext E pdfPath q) < 30
      then Pdftotext pdfPath q # fst (rasterizeAndOCR E pdfPath q) else [Pdftotext pdfPath q])"
  by (auto simp: page_events_def Let_def)

lemma count_page_events:
  "count_list (page_events E pdfPath q) (Pdftoppm pdfPath p) =
     (if p = q \<and> length (extractPageTextWithPdftotext E pdfPath q) < 30 then 1 else 0)"
  "count_list (page_events E pdfPath q) (Pdftotext pdfPath p) = (if p = q then 1 else 0)"
  "count_list (page_events E pdfPath q) (Recognize pdfPath p) \<le>
     count_list (page_events E pdfPath q) (Pdftoppm pdfPath p)"
  using raster_events [of E pdfPath q] by (auto simp: page_events_cases)

lemma count_pages_events:
  assumes "distinct qs"
  shows "count_list (concat (map (page_events E pdfPath) qs)) (Pdftoppm pdfPath p) =
           (if p \<in> set qs \<and> length (extractPageTextWithPdftotext E pdfPath p) < 30 then 1 else 0)"
    and "count_list (concat (map (page_events E pdfPath) qs)) (Pdftotext pdfPath p) =
           (if p \<in> set qs then 1 else 0)"
    and "count_list (concat (map (page_events E pdfPath) qs)) (Recognize pdfPath p) \<le>
           count_list (concat (map (page_events E pdfPath) qs)) (Pdftoppm pdfPath p)"
  using assms
proof (induction qs)
  case Nil
  case 1 show ?case by simp
  case 2 show ?case by simp
  case 3 show ?case by simp
next
  case (Cons q qs)
  case 1
  with Cons.IH(1) show ?case by (auto simp: count_page_events(1))
  case 2
  with Cons.IH(2) show ?case by (auto simp: count_page_events(2))
  case 3
  with Cons.IH(3) count_page_events(3) [of E pdfPath q p] show ?case
    by (simp add: add_mono)
qed

lemma embed_loop_log: "embed_loop E docId fname chunks i w = (w', x) \<Longrightarrow> log w' = log w"
proof (induction E docId fname chunks i w rule: embed_loop.induct)
  case (1 E docId fname chunks i w)
  show ?case
  proof (cases "i < length chunks")
    case False
    with "1.prems" show ?thesis by (simp add: embed_loop_stop)
  next
    case True
    let ?batch = "slice_js chunks (int i) (int (i + BATCH))"
    let ?vecs = "embedFn E (map ctext ?batch)"
    show ?thesis
    proof (cases "length ?vecs = length ?batch")
      case False
      with True "1.prems" show ?thesis by (simp add: embed_loop_throw)
    next
      case eq: True
      let ?points = "map (\<lambda>(b, j). \<lparr>pid = uuid E (drawn w + j), vec = ?vecs ! j, doc_id = docId,
                                     pfilename = fname, ppage = cpage b, ptext = ctext b\<rparr>)
                       (zip ?batch [0..<length ?batch])"
      let ?w = "w\<lparr>store := store w @ ?points, drawn := drawn w + length ?batch\<rparr>"
      have "embed_loop E docId fname chunks i w = embed_loop E docId fname chunks (i + BATCH) ?w"
        using True eq by (subst embed_loop.simps) (simp add: Let_def)
      with "1.prems" have "embed_loop E docId fname chunks (i + BATCH) ?w = (w', x)" by simp
      from "1.IH" [OF True refl refl _ refl this] eq show ?thesis by simp
    qed
  qed
qed

lemma ingestFile_log:
  assumes "ingestFile E pdfPath w = Some (w', r)"
  shows "\<exists>qs. distinct qs \<and>
           log w' = log w @ Pdfinfo pdfPath # concat (map (page_events E pdfPath) qs) \<and>
           (\<forall>n. r = Inr () \<and> getPageCount E pdfPath = Inr n \<longrightarrow> qs = [1..<Suc n])"
proof (cases "getPageCount E pdfPath")
  case (Inl e)
  with assms have "log w' = log w @ Pdfinfo pdfPath # concat (map (page_events E pdfPath) [])"
    by (auto simp: ingestFile_def Let_def)
  moreover have "\<forall>n. r = Inr () \<and> getPageCount E pdfPath = Inr n \<longrightarrow> [] = [1..<Suc n]"
    using Inl by simp
  ultimately show ?thesis by (metis distinct.simps(1))
next
  case (Inr n)
  obtain ev x where pl: "page_loop E pdfPath [1..<Suc n] [] = (ev, x)"
    by (cases "page_loop E pdfPath [1..<Suc n] []")
  from page_loop_events [OF pl] obtain k where k: "k \<le> length [1..<Suc n]"
    "ev = concat (map (page_events E pdfPath) (take k [1..<Suc n]))"
    "\<forall>pts'. x = Inr pts' \<longrightarrow> k = length [1..<Suc n]" by blast
  let ?qs = "take k [1..<Suc n]"
  have d: "distinct ?qs" by (rule distinct_take) simp
  have lg: "log w' = log w @ Pdfinfo pdfPath # ev \<and> (r = Inr () \<longrightarrow> (\<exists>pts. x = Inr pts))"
  proof (cases x)
    case (Inl e)
    with assms Inr pl show ?thesis by (auto simp: ingestFile_def Let_def)
  next
    case x: (Inr pts)
    obtain chunks where mc: "make_chunks pts = Some chunks" using make_chunks_returns by blast
    show ?thesis
    proof (cases "chunks = []")
      case True
      with assms Inr pl x mc show ?thesis by (auto simp: ingestFile_def Let_def)
    next
      case False
      with assms Inr pl x mc have
        "embed_loop E (strip_ext (basename pdfPath)) (basename pdfPath) chunks 0
           (w\<lparr>log := log w @ [Pdfinfo pdfPath] @ ev\<rparr>) = (w', r)"
        by (simp add: ingestFile_def Let_def)
      from embed_loop_log [OF this] x show ?thesis by simp
    qed
  qed
  have "\<forall>m. r = Inr () \<and> getPageCount E pdfPath = Inr m \<longrightarrow> ?qs = [1..<Suc m]"
    using lg k(3) Inr by auto
  with d lg k(2) show ?thesis by blast
qed



section \<open>C8: the recognition fallback\<close>

text \<open>
  Claim C8. In the ingestion of a file, whatever its result, the tools that were run after
  the page-count probe satisfy, for every page \<open>p\<close>: the rasterize-and-recognize path was
  entered once if the direct extraction was run for \<open>p\<close> and gave an empty text or fewer
  than 30 characters, and not at all otherwise; recognition was run at most as often as
  rasterization, so never for a page with 30 or more characters; and direct extraction was
  run at most once. When the ingestion succeeds, direct extraction was run for every page
  from 1 to the page count.
\<close>

theorem ocr_fallback_once:
  assumes "ingestFile E pdfPath w = Some (w', r)"
  shows "\<exists>tr. log w' = log w @ Pdfinfo pdfPath # tr \<and>
           (\<forall>p. count_list tr (Pdftoppm pdfPath p) =
                  (if Pdftotext pdfPath p \<in> set tr \<and>
                      (extractPageTextWithPdftotext E pdfPath p = [] \<or>
                       length (extractPageTextWithPdftotext E pdfPath p) < 30)
                   then 1 else 0) \<and>
                count_list tr (Recognize pdfPath p) \<le> count_list tr (Pdftoppm pdfPath p) \<and>
                count_list tr (Pdftotext pdfPath p) \<le> 1) \<and>
           (\<forall>n. r = Inr () \<and> getPageCount E pdfPath = Inr n \<longrightarrow>
                (\<forall>p. 1 \<le> p \<and> p \<le> n \<longrightarrow> Pdftotext pdfPath p \<in> set tr))"
proof -
  from ingestFile_log [OF assms] obtain qs where qs: "distinct qs"
    "log w' = log w @ Pdfinfo pdfPath # concat (map (page_events E pdfPath) qs)"
    "\<forall>n. r = Inr () \<and> getPageCount E pdfPath = Inr n \<longrightarrow> qs = [1..<Suc n]" by blast
  let ?tr = "concat (map (page_events E pdfPath) qs)"
  have mem: "Pdftotext pdfPath p \<in> set ?tr \<longleftrightarrow> p \<in> set qs" for p
    using count_pages_events(2) [OF qs(1), of E pdfPath p] count_list_0_iff [of ?tr "Pdftotext pdfPath p"]
    by (auto split: if_splits)
  have a: "count_list ?tr (Pdftoppm pdfPath p) =
                  (if Pdftotext pdfPath p \<in> set ?tr \<and>
                      (extractPageTextWithPdftotext E pdfPath p = [] \<or>
                       length (extractPageTextWithPdftotext E pdfPath p) < 30)
                   then 1 else 0)" for p
  proof -
    have "count_list ?tr (Pdftoppm pdfPath p) =
        (if p \<in> set qs \<and> length (extractPageTextWithPdftotext E pdfPath p) < 30 then 1 else 0)"
      by (rule count_pages_events(1) [OF qs(1)])
    moreover have "extractPageTextWithPdftotext E pdfPath p = [] \<or>
        length (extractPageTextWithPdftotext E pdfPath p) < 30 \<longleftrightarrow>
        length (extractPageTextWithPdftotext E pdfPath p) < 30" by auto
    ultimately show ?thesis by (simp only: mem)
  qed
  have b: "count_list ?tr (Recognize pdfPath p) \<le> count_list ?tr (Pdftoppm pdfPath p)" for p
    by (rule count_pages_events(3) [OF qs(1)])
  have c: "count_list ?tr (Pdftotext pdfPath p) \<le> 1" for p
    using count_pages_events(2) [OF qs(1), of E pdfPath p] by simp
  have e: "\<forall>n. r = Inr () \<and> getPageCount E pdfPath = Inr n \<longrightarrow>
                (\<forall>p. 1 \<le> p \<and> p \<le> n \<longrightarrow> Pdftotext pdfPath p \<in> set ?tr)"
  proof (intro allI impI)
    fix n p assume h: "r = Inr () \<and> getPageCount E pdfPath = Inr n" and p: "1 \<le> p \<and> p \<le> n"
    from qs(3) h have "qs = [1..<Suc n]" by blast
    with p have "p \<in> set qs" by auto
    then show "Pdftotext pdfPath p \<in> set ?tr" by (simp only: mem)
  qed
  from qs(2) a b c e show ?thesis by blast
qed

text \<open>
  The example file: page 1 has 34 characters of direct text and is never rasterized, page
  2 has one character and is rasterized once.
\<close>

lemma sample_ingest:
  "ingestFile sample_env sample_path empty_world = Some (sample_result, Inr ())"
  by code_simp

lemma sample_pages: "getPageCount sample_env sample_path = Inr 2"
  by code_simp

lemma sample_short:
  "length (extractPageTextWithPdftotext sample_env sample_path 1) = 34"
  "extractPageTextWithPdftotext sample_env sample_path 2 = lit ''7''"
  by code_simp+

theorem ocr_fallback_once_witness:
  "ingestFile sample_env sample_path empty_world = Some (sample_result, Inr ()) \<and>
   (\<exists>tr. log sample_result = log empty_world @ Pdfinfo sample_path # tr \<and>
      count_list tr (Pdftoppm sample_path 2) = 1 \<and> count_list tr (Pdftoppm sample_path 1) = 0 \<and>
      count_list tr (Recognize sample_path 1) = 0)"
proof -
  from ocr_fallback_once [OF sample_ingest] obtain tr where
    lg: "log sample_result = log empty_world @ Pdfinfo sample_path # tr" and
    cnt: "\<And>p. count_list tr (Pdftoppm sample_path p) =
                  (if Pdftotext sample_path p \<in> set tr \<and>
                      (extractPageTextWithPdftotext sample_env sample_path p = [] \<or>
                       length (extractPageTextWithPdftotext sample_env sample_path p) < 30)
                   then 1 else 0)" and
    rec: "\<And>p. count_list tr (Recognize sample_path p) \<le> count_list tr (Pdftoppm sample_path p)" and
    all: "\<forall>n. Inr () = (Inr () :: error + unit) \<and> getPageCount sample_env sample_path = Inr n \<longrightarrow>
                (\<forall>p. 1 \<le> p \<and> p \<le> n \<longrightarrow> Pdftotext sample_path p \<in> set tr)"
    by blast
  from all sample_pages have "Pdftotext sample_path 2 \<in> set tr" by auto
  moreover have "length (extractPageTextWithPdftotext sample_env sample_path 2) < 30"
    using sample_short(2) by (simp add: lit_def)
  ultimately have two: "count_list tr (Pdftoppm sample_path 2) = 1"
    using cnt [of 2] by simp
  have "\<not> (extractPageTextWithPdftotext sample_env sample_path 1 = [] \<or>
            length (extractPageTextWithPdftotext sample_env sample_path 1) < 30)"
    using sample_short(1) by auto
  then have one: "count_list tr (Pdftoppm sample_path 1) = 0"
    using cnt [of 1] by simp
  with rec [of 1] have "count_list tr (Recognize sample_path 1) = 0" by simp
  with sample_ingest lg two one show ?thesis by blast
qed

section \<open>C3: failures of the external tools\<close>






section \<open>C4: the embedding batcher\<close>

text \<open>
  Claim C4. When the pipeline's output for a batch of \<open>N\<close> texts has one of the three
  shapes for the vectors \<open>vs\<close> (\<open>N\<close> of them), \<open>embedFn\<close> returns exactly these \<open>N\<close> vectors,
  the \<open>i\<close>-th for the \<open>i\<close>-th text. When the number of vectors returned for the batch that
  starts at chunk \<open>i\<close> is not the number of its texts, the loop throws at once and leaves
  the store as it was, and when this happens for some batch of a file's chunks the
  ingestion of the file throws, as does a run over files that include it.
\<close>

theorem embed_batch_aligned:
  "(shaped vs (pipe E texts) \<and> length vs = length texts \<longrightarrow>
      embedFn E texts = map Some vs \<and> length (embedFn E texts) = length texts \<and>
      (\<forall>i < length texts. embedFn E texts ! i = Some (vs ! i))) \<and>
   (i < length chunks \<and>
    length (embedFn E (map ctext (slice_js chunks (int i) (int (i + BATCH))))) \<noteq>
      length (slice_js chunks (int i) (int (i + BATCH))) \<longrightarrow>
      embed_loop E docId fname chunks i w =
        (w, Inl (EmbedCount (length (embedFn E (map ctext (slice_js chunks (int i) (int (i + BATCH))))))
                   (length (slice_js chunks (int i) (int (i + BATCH))))))) \<and>
   (getPageCount E pdfPath = Inr n \<and> page_loop E pdfPath [1..<Suc n] [] = (ev, Inr pts) \<and>
    make_chunks pts = Some chunks \<and> BATCH * k < length chunks \<and>
    length (embedFn E (map ctext (slice_js chunks (int (BATCH * k)) (int (BATCH * k + BATCH))))) \<noteq>
      length (slice_js chunks (int (BATCH * k)) (int (BATCH * k + BATCH))) \<longrightarrow>
      (\<exists>w' a b. ingestFile E pdfPath w = Some (w', Inl (EmbedCount a b)) \<and> a \<noteq> b) \<and>
      (pdfPath \<in> set pdfs \<longrightarrow> (\<exists>w' e. run E pdfs w = Some (w', Inl e))))"
proof -
  have a: "embedFn E texts = map Some vs \<and> length (embedFn E texts) = length texts \<and>
      (\<forall>i < length texts. embedFn E texts ! i = Some (vs ! i))"
    if "shaped vs (pipe E texts)" "length vs = length texts"
  proof -
    have "embedFn E texts = map Some vs"
      unfolding embedFn_def by (rule split_output_shaped [OF that(1)])
    with that(2) show ?thesis by simp
  qed
  have b: "i < length chunks \<and>
    length (embedFn E (map ctext (slice_js chunks (int i) (int (i + BATCH))))) \<noteq>
      length (slice_js chunks (int i) (int (i + BATCH))) \<longrightarrow>
      embed_loop E docId fname chunks i w =
        (w, Inl (EmbedCount (length (embedFn E (map ctext (slice_js chunks (int i) (int (i + BATCH))))))
                   (length (slice_js chunks (int i) (int (i + BATCH))))))"
    using embed_loop_throw by blast
  have c: "(\<exists>w' a b. ingestFile E pdfPath w = Some (w', Inl (EmbedCount a b)) \<and> a \<noteq> b) \<and>
      (pdfPath \<in> set pdfs \<longrightarrow> (\<exists>w' e. run E pdfs w = Some (w', Inl e)))"
    if h: "getPageCount E pdfPath = Inr n" "page_loop E pdfPath [1..<Suc n] [] = (ev, Inr pts)"
      "make_chunks pts = Some chunks" "BATCH * k < length chunks"
      "length (embedFn E (map ctext (slice_js chunks (int (BATCH * k)) (int (BATCH * k + BATCH))))) \<noteq>
       length (slice_js chunks (int (BATCH * k)) (int (BATCH * k + BATCH)))"
  proof -
    have f: "\<exists>w' a b. ingestFile E pdfPath w0 = Some (w', Inl (EmbedCount a b)) \<and> a \<noteq> b" for w0
      by (rule ingestFile_embed_mismatch [OF h])
    have "\<exists>w' e. run E pdfs w = Some (w', Inl e)" if "pdfPath \<in> set pdfs"
    proof (rule run_fails [OF that])
      fix w0 :: "'a world"
      from f [of w0] show "\<exists>w' e. ingestFile E pdfPath w0 = Some (w', Inl e)" by blast
    qed
    with f [of w] show ?thesis by blast
  qed
  from a b c show ?thesis by blast
qed

text \<open>
  A pipeline that returns one tensor of dims \<open>[3, 1]\<close>: three vectors for three texts, and
  an exception for the example file's two chunks.
\<close>

lemma badpipe_facts:
  "getPageCount badpipe_env sample_path = Inr 2"
  "page_loop badpipe_env sample_path [1..<Suc 2] [] =
     ([Pdftotext sample_path 1, Pdftotext sample_path 2, Pdftoppm sample_path 2, Recognize sample_path 2],
      Inr [\<lparr>pt_page = 1, pt_text = lit ''The heater control is on the dash.''\<rparr>,
           \<lparr>pt_page = 2, pt_text = lit ''Fuse box.''\<rparr>])"
  "make_chunks [\<lparr>pt_page = 1, pt_text = lit ''The heater control is on the dash.''\<rparr>,
           \<lparr>pt_page = 2, pt_text = lit ''Fuse box.''\<rparr>] =
     Some [\<lparr>cpage = 1, ctext = lit ''The heater control is on the dash.''\<rparr>,
           \<lparr>cpage = 2, ctext = lit ''Fuse box.''\<rparr>]"
  by code_simp+

theorem embed_batch_aligned_witness:
  "embedFn badpipe_env [lit ''a'', lit ''b'', lit ''c''] = [Some [1], Some [2], Some [3]] \<and>
   embed_loop badpipe_env (lit ''a'') (lit ''a.pdf'')
     [\<lparr>cpage = 1, ctext = lit ''The heater control is on the dash.''\<rparr>,
      \<lparr>cpage = 2, ctext = lit ''Fuse box.''\<rparr>] 0 empty_world =
     (empty_world, Inl (EmbedCount 3 2)) \<and>
   (\<exists>w' a b. ingestFile badpipe_env sample_path empty_world = Some (w', Inl (EmbedCount a b)) \<and> a \<noteq> b) \<and>
   (\<exists>w' e. run badpipe_env [sample_path] empty_world = Some (w', Inl e))"
proof -
  let ?chunks = "[\<lparr>cpage = 1, ctext = lit ''The heater control is on the dash.''\<rparr>,
      \<lparr>cpage = 2, ctext = lit ''Fuse box.''\<rparr>]"
  let ?texts = "[lit ''a'', lit ''b'', lit ''c'']"
  have "shaped [[1], [2], [3::nat]] (OutTensor \<lparr>data = concat [[1], [2], [3]], dims = Some [length [[1], [2], [3::nat]], 1]\<rparr>)"
    by (rule shaped.batched) simp
  then have sh: "shaped [[1], [2], [3]] (pipe badpipe_env ?texts)"
    by (simp add: badpipe_env_def eval_nat_numeral)
  have b0: "slice_js ?chunks (int 0) (int (0 + BATCH)) = ?chunks"
    by (simp add: slice_js_def BATCH_def)
  have b1: "slice_js ?chunks (int (BATCH * 0)) (int (BATCH * 0 + BATCH)) = ?chunks"
    by (simp add: slice_js_def BATCH_def)
  have em: "length (embedFn badpipe_env (map ctext ?chunks)) = 3"
    by (simp add: embedFn_def split_output_def badpipe_env_def)
  note inst = embed_batch_aligned [of "[[1], [2], [3]]" badpipe_env ?texts 0 ?chunks "lit ''a''"
      "lit ''a.pdf''" empty_world sample_path 2
      "[Pdftotext sample_path 1, Pdftotext sample_path 2, Pdftoppm sample_path 2, Recognize sample_path 2]"
      "[\<lparr>pt_page = 1, pt_text = lit ''The heater control is on the dash.''\<rparr>,
        \<lparr>pt_page = 2, pt_text = lit ''Fuse box.''\<rparr>]" 0 "[sample_path]"]
  from inst sh have a: "embedFn badpipe_env ?texts = [Some [1], Some [2], Some [3]]" by simp
  from inst have b: "embed_loop badpipe_env (lit ''a'') (lit ''a.pdf'') ?chunks 0 empty_world =
     (empty_world, Inl (EmbedCount 3 2))"
    unfolding b0 em by simp
  from inst badpipe_facts have c:
    "(\<exists>w' a b. ingestFile badpipe_env sample_path empty_world = Some (w', Inl (EmbedCount a b)) \<and> a \<noteq> b) \<and>
     (\<exists>w' e. run badpipe_env [sample_path] empty_world = Some (w', Inl e))"
    unfolding b1 em by simp
  from a b c show ?thesis by blast
qed

end
